theory Spec2Isabelle
  imports Complex_Main "HOL-Library.Multiset" "HOL-Library.Sublist"
begin

section \<open>Retrieval utilities of open-webui (backend/open\_webui/retrieval/utils.py)\<close>

text \<open>
  A shallow embedding of the result merger \<open>merge_and_sort_query_results\<close>, the two
  fan-out functions \<open>query_collection\<close> and \<open>query_collection_with_hybrid_search\<close>,
  and \<open>RerankCompressor.compress_documents\<close>.

  Modelling conventions.
  \<^item> A Python value that the code inspects dynamically (a document that may or may not
    be a \<open>str\<close>, a metadata value) is a \<open>pyval\<close>.
  \<^item> A distance or score is a Python float. Only its order is used by the code; it is
    an element of a linear order (\<open>'d::linorder\<close>, or \<open>real\<close> where the code tests it
    against zero). NaN, which is not linearly ordered, is outside the model.
  \<^item> A query result is the dictionary
    \<open>{"distances": [ds], "documents": [docs], "metadatas": [ms]}\<close>; every field is a
    one-element list and the code reads element \<open>[0]\<close> only. The record
    \<open>query_result\<close> holds \<open>ds\<close>, \<open>docs\<close> and \<open>ms\<close>.
  \<^item> \<open>hashlib.md5(document.encode()).hexdigest()\<close> is a function from strings to digests,
    passed as the parameter \<open>h\<close>; nothing is assumed about it (in particular not that
    it is injective).
  \<^item> A Python \<open>int\<close> is an \<open>int\<close>; slices with a negative bound are written out.
  \<^item> An exception is a value of type \<open>exn\<close>; a call that may raise returns
    \<open>exn + 'a\<close>.
\<close>

subsection \<open>Python values, slices and sorting\<close>

datatype pyval = PNone | PStr string | PInt int | PFloat real | PBool bool

datatype exn = KeyError string | Exception string

text \<open>\<open>del xs[k:]\<close> and \<open>xs[:k]\<close>: both keep the elements before the slice's start,
  which is \<open>k\<close> when \<open>k \<ge> 0\<close> and \<open>len(xs) + k\<close>, not below zero, otherwise.\<close>

definition py_slice_to :: "int \<Rightarrow> 'a list \<Rightarrow> 'a list" where
  "py_slice_to k xs = (if 0 \<le> k then take (nat k) xs else take (nat (int (length xs) + k)) xs)"

text \<open>\<open>list.sort(key=..., reverse=...)\<close> and \<open>sorted\<close>: a stable sort; with
  \<open>reverse=True\<close> CPython reverses the list, sorts it, and reverses the result, which
  keeps elements with equal keys in their original order.\<close>

definition py_sort :: "('a \<Rightarrow> 'k::linorder) \<Rightarrow> bool \<Rightarrow> 'a list \<Rightarrow> 'a list" where
  "py_sort key reverse xs = (if reverse then rev (sort_key key (rev xs)) else sort_key key xs)"

subsection \<open>merge\_and\_sort\_query\_results\<close>

record ('d, 'm) query_result =
  distances :: "'d list"
  documents :: "pyval list"
  metadatas :: "'m list"

type_synonym ('d, 'm) entry = "'d \<times> pyval \<times> 'm"

text \<open>\<open>zip(distances, documents, metadatas)\<close>: as long as the shortest of the three.\<close>

definition zip3 :: "'a list \<Rightarrow> 'b list \<Rightarrow> 'c list \<Rightarrow> ('a \<times> 'b \<times> 'c) list" where
  "zip3 xs ys zs = zip xs (zip ys zs)"

text \<open>\<open>all(isinstance(doc, str) for doc in documents)\<close>, returning the strings.\<close>

fun all_str :: "pyval list \<Rightarrow> string list option" where
  "all_str [] = Some []"
| "all_str (PStr s # docs) = (case all_str docs of None \<Rightarrow> None | Some ss \<Rightarrow> Some (s # ss))"
| "all_str (_ # docs) = None"

text \<open>The loop state is the dictionary \<open>seen_hashes\<close> and the list \<open>combined\<close>.
  \<open>batch_pass\<close> is the loop of the branch where every document is a string.\<close>

fun batch_pass ::
  "(string \<Rightarrow> 'h) \<Rightarrow> ('h \<rightharpoonup> bool) \<times> ('d, 'm) entry list \<Rightarrow> ('d \<times> string \<times> 'm) list
    \<Rightarrow> ('h \<rightharpoonup> bool) \<times> ('d, 'm) entry list" where
  "batch_pass h (seen_hashes, combined) [] = (seen_hashes, combined)"
| "batch_pass h (seen_hashes, combined) ((distance, document, metadata) # rest) =
     (let doc_hash = h document in
      if seen_hashes doc_hash = None
      then batch_pass h (seen_hashes(doc_hash \<mapsto> True),
                         combined @ [(distance, PStr document, metadata)]) rest
      else batch_pass h (seen_hashes, combined) rest)"

text \<open>\<open>fallback_pass\<close> is the loop of the other branch, which tests every document.\<close>

fun fallback_pass ::
  "(string \<Rightarrow> 'h) \<Rightarrow> ('h \<rightharpoonup> bool) \<times> ('d, 'm) entry list \<Rightarrow> ('d, 'm) entry list
    \<Rightarrow> ('h \<rightharpoonup> bool) \<times> ('d, 'm) entry list" where
  "fallback_pass h (seen_hashes, combined) [] = (seen_hashes, combined)"
| "fallback_pass h (seen_hashes, combined) ((distance, PStr document, metadata) # rest) =
     (let doc_hash = h document in
      if seen_hashes doc_hash = None
      then fallback_pass h (seen_hashes(doc_hash \<mapsto> True),
                            combined @ [(distance, PStr document, metadata)]) rest
      else fallback_pass h (seen_hashes, combined) rest)"
| "fallback_pass h (seen_hashes, combined) ((distance, document, metadata) # rest) =
     fallback_pass h (seen_hashes, combined) rest"

text \<open>The body of \<open>for data in query_results\<close>. (The capacity estimate before the loop has
  no effect: a Python list has no \<open>reserve\<close>, so the conditional expression is \<open>None\<close>.)\<close>

definition process_data ::
  "(string \<Rightarrow> 'h) \<Rightarrow> ('h \<rightharpoonup> bool) \<times> ('d, 'm) entry list \<Rightarrow> ('d, 'm) query_result
    \<Rightarrow> ('h \<rightharpoonup> bool) \<times> ('d, 'm) entry list" where
  "process_data h st data =
     (case all_str (documents data) of
        Some texts \<Rightarrow> batch_pass h st (zip3 (distances data) texts (metadatas data))
      | None \<Rightarrow> fallback_pass h st (zip3 (distances data) (documents data) (metadatas data)))"

text \<open>After the loop: the early return on an empty \<open>combined\<close>, the sort on the distance
  \<open>x[0]\<close>, \<open>del combined[k:]\<close>, and the three output sequences unzipped from \<open>combined\<close>.\<close>

definition merge_and_sort_query_results ::
  "(string \<Rightarrow> 'h) \<Rightarrow> ('d::linorder, 'm) query_result list \<Rightarrow> int \<Rightarrow> bool
    \<Rightarrow> ('d, 'm) query_result" where
  "merge_and_sort_query_results h query_results k reverse =
     (let (seen_hashes, combined) = foldl (process_data h) (Map.empty, []) query_results in
      if combined = []
      then \<lparr>distances = [], documents = [], metadatas = []\<rparr>
      else
        let combined = py_slice_to k (py_sort fst reverse combined) in
        \<lparr>distances = map fst combined,
         documents = map (fst \<circ> snd) combined,
         metadatas = map (snd \<circ> snd) combined\<rparr>)"

subsection \<open>query\_collection\<close>

text \<open>The environment of the fan-out functions: \<open>VECTOR_DB\<close> is the configured backend
  name; \<open>search\<close> is \<open>VECTOR_DB_CLIENT.search(collection_name, vectors=[v], limit=k)\<close>,
  which raises or returns a result or \<open>None\<close>; \<open>embedding_function\<close> may raise.
  \<open>result.model_dump()\<close> turns the result object into the dictionary modelled by
  \<open>query_result\<close>.\<close>

definition query_doc ::
  "(string \<Rightarrow> 'v \<Rightarrow> int \<Rightarrow> exn + ('d, 'm) query_result option)
    \<Rightarrow> string \<Rightarrow> 'v \<Rightarrow> int \<Rightarrow> exn + ('d, 'm) query_result option" where
  "query_doc search collection_name query_embedding k =
     (case search collection_name query_embedding k of
        Inr result \<Rightarrow> Inr result
      | Inl e \<Rightarrow> Inl e)"

text \<open>\<open>for collection_name in collection_names\<close>, for one query embedding.\<close>

fun query_collection_names ::
  "(string \<Rightarrow> 'v \<Rightarrow> int \<Rightarrow> exn + ('d, 'm) query_result option) \<Rightarrow> 'v \<Rightarrow> int
    \<Rightarrow> ('d, 'm) query_result list \<Rightarrow> string list \<Rightarrow> ('d, 'm) query_result list" where
  "query_collection_names search query_embedding k results [] = results"
| "query_collection_names search query_embedding k results (collection_name # rest) =
     (if collection_name \<noteq> []
      then (case query_doc search collection_name query_embedding k of
              Inr (Some result) \<Rightarrow>
                query_collection_names search query_embedding k (results @ [result]) rest
            | Inr None \<Rightarrow> query_collection_names search query_embedding k results rest
            | Inl e \<Rightarrow> query_collection_names search query_embedding k results rest)
      else query_collection_names search query_embedding k results rest)"

text \<open>\<open>for query in queries\<close>: the embedding call is outside the \<open>try\<close>.\<close>

fun query_collection_queries ::
  "(string \<Rightarrow> 'v \<Rightarrow> int \<Rightarrow> exn + ('d, 'm) query_result option) \<Rightarrow> (string \<Rightarrow> exn + 'v)
    \<Rightarrow> string list \<Rightarrow> int \<Rightarrow> ('d, 'm) query_result list \<Rightarrow> string list
    \<Rightarrow> exn + ('d, 'm) query_result list" where
  "query_collection_queries search embedding_function collection_names k results [] = Inr results"
| "query_collection_queries search embedding_function collection_names k results (query # rest) =
     (case embedding_function query of
        Inl e \<Rightarrow> Inl e
      | Inr query_embedding \<Rightarrow>
          query_collection_queries search embedding_function collection_names k
            (query_collection_names search query_embedding k results collection_names) rest)"

definition query_collection ::
  "(string \<Rightarrow> 'h) \<Rightarrow> string \<Rightarrow> (string \<Rightarrow> 'v \<Rightarrow> int \<Rightarrow> exn + ('d::linorder, 'm) query_result option)
    \<Rightarrow> string list \<Rightarrow> string list \<Rightarrow> (string \<Rightarrow> exn + 'v) \<Rightarrow> int
    \<Rightarrow> exn + ('d, 'm) query_result" where
  "query_collection h VECTOR_DB search collection_names queries embedding_function k =
     (case query_collection_queries search embedding_function collection_names k [] queries of
        Inl e \<Rightarrow> Inl e
      | Inr results \<Rightarrow>
          if VECTOR_DB = ''chroma''
          then Inr (merge_and_sort_query_results h results k False)
          else Inr (merge_and_sort_query_results h results k True))"

subsection \<open>query\_collection\_with\_hybrid\_search\<close>

text \<open>\<open>get\<close> is \<open>VECTOR_DB_CLIENT.get(collection_name=...)\<close>, which raises or returns
  the collection's snapshot or \<open>None\<close>. \<open>hybrid\<close> is \<open>query_doc_with_hybrid_search\<close> for
  the call's embedding and reranking functions: its body is the retriever pipeline of
  the langchain library, and every exception of that pipeline is raised again, so it
  is a function that returns a result dictionary or raises.
  The thread pools join all their futures in submission order; with \<open>get\<close> and \<open>hybrid\<close>
  functions, the result is that of the sequential run.\<close>

definition fetch_collection_data ::
  "(string \<Rightarrow> exn + 'c option) \<Rightarrow> string list \<Rightarrow> (string \<rightharpoonup> 'c option)" where
  "fetch_collection_data get collection_names =
     foldl (\<lambda>collection_data collection_name.
              collection_data(collection_name \<mapsto>
                (case get collection_name of Inr data \<Rightarrow> data | Inl e \<Rightarrow> None)))
       Map.empty collection_names"

definition unavailable :: "string \<Rightarrow> exn" where
  "unavailable collection_name =
     Exception (''Collection data for '' @ collection_name @ '' is unavailable.'')"

definition process_query ::
  "(string \<Rightarrow> 'c \<Rightarrow> string \<Rightarrow> int \<Rightarrow> int \<Rightarrow> real \<Rightarrow> exn + ('d, 'm) query_result)
    \<Rightarrow> (string \<rightharpoonup> 'c option) \<Rightarrow> int \<Rightarrow> int \<Rightarrow> real \<Rightarrow> string \<Rightarrow> string
    \<Rightarrow> ('d, 'm) query_result option \<times> exn option" where
  "process_query hybrid collection_data k k_reranker r collection_name query =
     (case collection_data collection_name of
        None \<Rightarrow> (None, Some (KeyError collection_name))
      | Some None \<Rightarrow> (None, Some (unavailable collection_name))
      | Some (Some data) \<Rightarrow>
          (case hybrid collection_name data query k k_reranker r of
             Inr result \<Rightarrow> (Some result, None)
           | Inl e \<Rightarrow> (None, Some e)))"

text \<open>\<open>tasks\<close> and \<open>task_results\<close>: collection-major, query-minor.\<close>

definition hybrid_task_results ::
  "(string \<Rightarrow> exn + 'c option)
    \<Rightarrow> (string \<Rightarrow> 'c \<Rightarrow> string \<Rightarrow> int \<Rightarrow> int \<Rightarrow> real \<Rightarrow> exn + ('d, 'm) query_result)
    \<Rightarrow> string list \<Rightarrow> string list \<Rightarrow> int \<Rightarrow> int \<Rightarrow> real
    \<Rightarrow> (('d, 'm) query_result option \<times> exn option) list" where
  "hybrid_task_results get hybrid collection_names queries k k_reranker r =
     (let collection_data = fetch_collection_data get collection_names;
          tasks = List.product collection_names queries
      in map (\<lambda>(cn, q). process_query hybrid collection_data k k_reranker r cn q) tasks)"

text \<open>\<open>for result, err in task_results\<close>.\<close>

fun collect_task_results ::
  "('a option \<times> exn option) list \<Rightarrow> 'a list \<times> bool \<Rightarrow> 'a list \<times> bool" where
  "collect_task_results [] (results, error) = (results, error)"
| "collect_task_results ((result, Some err) # rest) (results, error) =
     collect_task_results rest (results, True)"
| "collect_task_results ((Some result, None) # rest) (results, error) =
     collect_task_results rest (results @ [result], error)"
| "collect_task_results ((None, None) # rest) (results, error) =
     collect_task_results rest (results, error)"

definition all_failed :: exn where
  "all_failed =
     Exception ''Hybrid search failed for all collections. Using Non-hybrid search as fallback.''"

definition query_collection_with_hybrid_search ::
  "(string \<Rightarrow> 'h) \<Rightarrow> string \<Rightarrow> (string \<Rightarrow> exn + 'c option)
    \<Rightarrow> (string \<Rightarrow> 'c \<Rightarrow> string \<Rightarrow> int \<Rightarrow> int \<Rightarrow> real \<Rightarrow> exn + ('d::linorder, 'm) query_result)
    \<Rightarrow> string list \<Rightarrow> string list \<Rightarrow> int \<Rightarrow> int \<Rightarrow> real
    \<Rightarrow> exn + ('d, 'm) query_result" where
  "query_collection_with_hybrid_search h VECTOR_DB get hybrid collection_names queries
       k k_reranker r =
     (let task_results = hybrid_task_results get hybrid collection_names queries k k_reranker r;
          (results, error) = collect_task_results task_results ([], False)
      in if error \<and> results = [] then Inl all_failed
         else if VECTOR_DB = ''chroma''
         then Inr (merge_and_sort_query_results h results k False)
         else Inr (merge_and_sort_query_results h results k True))"

subsection \<open>RerankCompressor.compress\_documents\<close>

text \<open>A langchain \<open>Document\<close> has a text and a metadata dictionary. The new \<open>Document\<close>
  built for every returned entry holds the metadata as it is when the entry is built,
  the score just stored in it.\<close>

record document =
  page_content :: string
  metadata :: "string \<rightharpoonup> pyval"

text \<open>The fields of the compressor. \<open>reranking_function\<close> is \<open>None\<close> or an object whose
  \<open>predict\<close> scores (query, text) pairs. When it is \<open>None\<close> the scores are
  \<open>util.cos_sim(embedding_function(query), embedding_function(texts))[0]\<close>, the field
  \<open>cos_sim_scores\<close>. Both are taken to return their list of scores.\<close>

record rerank_compressor =
  top_n :: int
  r_score :: real
  reranking_function :: "((string \<times> string) list \<Rightarrow> real list) option"
  cos_sim_scores :: "string \<Rightarrow> string list \<Rightarrow> real list"

text \<open>The scores, one per document, by the reranking function when there is one.\<close>

definition rerank_scores :: "rerank_compressor \<Rightarrow> document list \<Rightarrow> string \<Rightarrow> real list" where
  "rerank_scores self docs query =
     (case reranking_function self of
        Some predict \<Rightarrow> predict (map (\<lambda>doc. (query, page_content doc)) docs)
      | None \<Rightarrow> cos_sim_scores self query (map page_content docs))"

text \<open>The body of the final loop: the score is stored under \<open>"score"\<close> and a new
  document is built.\<close>

fun attach_score :: "document \<times> real \<Rightarrow> document" where
  "attach_score (doc, doc_score) =
     \<lparr>page_content = page_content doc,
      metadata = (metadata doc)(''score'' \<mapsto> PFloat doc_score)\<rparr>"

definition compress_documents :: "rerank_compressor \<Rightarrow> document list \<Rightarrow> string \<Rightarrow> document list" where
  "compress_documents self docs query =
     (let scores = rerank_scores self docs query;
          docs_with_scores = zip docs scores;
          docs_with_scores =
            (if r_score self \<noteq> 0
             then filter (\<lambda>(d, s). r_score self \<le> s) docs_with_scores
             else docs_with_scores);
          result = py_sort snd True docs_with_scores
      in map attach_score (py_slice_to (top_n self) result))"

section \<open>Notions of the specification\<close>

text \<open>The candidates of one result set: the triples the code's \<open>zip\<close> yields.\<close>

definition entries_of :: "('d, 'm) query_result \<Rightarrow> ('d, 'm) entry list" where
  "entries_of data = zip3 (distances data) (documents data) (metadatas data)"

text \<open>The candidates that carry a passage text, with the text as a string.\<close>

fun texts_of :: "('d, 'm) entry list \<Rightarrow> ('d \<times> string \<times> 'm) list" where
  "texts_of [] = []"
| "texts_of ((d, PStr t, m) # es) = (d, t, m) # texts_of es"
| "texts_of (_ # es) = texts_of es"

fun as_entry :: "'d \<times> string \<times> 'm \<Rightarrow> ('d, 'm) entry" where
  "as_entry (d, t, m) = (d, PStr t, m)"

fun text_of :: "'d \<times> string \<times> 'm \<Rightarrow> string" where
  "text_of (d, t, m) = t"

fun hash_of :: "(string \<Rightarrow> 'h) \<Rightarrow> 'd \<times> string \<times> 'm \<Rightarrow> 'h" where
  "hash_of h (d, t, m) = h t"

text \<open>The flattened input: all passages of all result sets, in input order.\<close>

definition passages :: "('d, 'm) query_result list \<Rightarrow> ('d \<times> string \<times> 'm) list" where
  "passages query_results = concat (map (\<lambda>data. texts_of (entries_of data)) query_results)"

text \<open>The passage texts of the flattened input.\<close>

definition passage_texts :: "('d, 'm) query_result list \<Rightarrow> string list" where
  "passage_texts query_results = map text_of (passages query_results)"

definition result_texts :: "('d, 'm) query_result \<Rightarrow> string list" where
  "result_texts out = map text_of (texts_of (entries_of out))"

text \<open>Deduplication by key, the first occurrence winning: an element is kept when no
  element kept before it has its key.\<close>

definition keep_first :: "('a \<Rightarrow> 'k) \<Rightarrow> 'a list \<Rightarrow> 'a \<Rightarrow> 'a list" where
  "keep_first key acc x = (if key x \<in> key ` set acc then acc else acc @ [x])"

definition first_seen :: "('a \<Rightarrow> 'k) \<Rightarrow> 'a list \<Rightarrow> 'a list" where
  "first_seen key xs = foldl (keep_first key) [] xs"

definition deduplicated ::
  "(string \<Rightarrow> 'h) \<Rightarrow> ('d, 'm) query_result list \<Rightarrow> ('d \<times> string \<times> 'm) list" where
  "deduplicated h query_results = first_seen (hash_of h) (passages query_results)"

text \<open>\<open>ys\<close> is a stable sort of \<open>xs\<close> by \<open>key\<close>: a rearrangement of \<open>xs\<close>, ordered by key
  (descending or ascending), in which the elements of every key keep the order they
  have in \<open>xs\<close>.\<close>

definition stable_sort_of :: "('a \<Rightarrow> 'k::linorder) \<Rightarrow> bool \<Rightarrow> 'a list \<Rightarrow> 'a list \<Rightarrow> bool" where
  "stable_sort_of key descending xs ys \<longleftrightarrow>
     mset ys = mset xs \<and>
     sorted_wrt (\<lambda>a b. if descending then key b \<le> key a else key a \<le> key b) ys \<and>
     (\<forall>s. filter (\<lambda>x. key x = s) ys = filter (\<lambda>x. key x = s) xs)"

text \<open>The results of the tasks that succeeded: a task succeeds when it returns a result
  and no error.\<close>

fun successes :: "('a option \<times> exn option) list \<Rightarrow> 'a list" where
  "successes [] = []"
| "successes ((Some result, None) # rest) = result # successes rest"
| "successes (_ # rest) = successes rest"

text \<open>A search whose every failure is replaced by "no result".\<close>

definition skip_failures ::
  "(string \<Rightarrow> 'v \<Rightarrow> int \<Rightarrow> exn + 'r option) \<Rightarrow> string \<Rightarrow> 'v \<Rightarrow> int \<Rightarrow> exn + 'r option" where
  "skip_failures search collection_name v k =
     (case search collection_name v k of Inl e \<Rightarrow> Inr None | Inr result \<Rightarrow> Inr result)"

text \<open>The candidates of the compressor: the documents paired with their scores; and the
  candidates that pass the threshold, when there is one.\<close>

definition candidates :: "rerank_compressor \<Rightarrow> document list \<Rightarrow> string \<Rightarrow> (document \<times> real) list" where
  "candidates self docs query = zip docs (rerank_scores self docs query)"

definition kept :: "rerank_compressor \<Rightarrow> document list \<Rightarrow> string \<Rightarrow> (document \<times> real) list" where
  "kept self docs query =
     (if r_score self \<noteq> 0
      then filter (\<lambda>c. r_score self \<le> snd c) (candidates self docs query)
      else candidates self docs query)"

text \<open>The score a returned document carries in its metadata.\<close>

definition score_of :: "document \<Rightarrow> real option" where
  "score_of doc = (case metadata doc ''score'' of Some (PFloat s) \<Rightarrow> Some s | _ \<Rightarrow> None)"

section \<open>The merger refines first-seen deduplication, stable sort and truncation\<close>

lemma all_str_map: "all_str docs = Some texts \<Longrightarrow> docs = map PStr texts"
  by (induction docs arbitrary: texts rule: all_str.induct) (auto split: option.splits)

lemma batch_pass_fallback:
  "batch_pass h st ts = fallback_pass h st (map as_entry ts)"
proof (induction ts arbitrary: st)
  case Nil
  show ?case by (cases st) simp
next
  case (Cons t ts)
  obtain seen combined where st: "st = (seen, combined)" by (cases st)
  obtain d x m where t: "t = (d, x, m)" by (cases t)
  show ?case unfolding st t by (simp add: Let_def Cons.IH)
qed

lemma zip3_map_PStr: "zip3 ds (map PStr texts) ms = map as_entry (zip3 ds texts ms)"
  unfolding zip3_def
proof (induction ds arbitrary: texts ms)
  case Nil show ?case by simp
next
  case (Cons d ds)
  show ?case by (cases texts; cases ms) (simp_all add: Cons.IH)
qed

lemma process_data_fallback: "process_data h st data = fallback_pass h st (entries_of data)"
proof (cases "all_str (documents data)")
  case None
  then show ?thesis by (simp add: process_data_def entries_of_def)
next
  case (Some texts)
  have d: "documents data = map PStr texts" by (rule all_str_map [OF Some])
  have "process_data h st data = batch_pass h st (zip3 (distances data) texts (metadatas data))"
    by (simp add: process_data_def Some)
  also have "\<dots> = fallback_pass h st (map as_entry (zip3 (distances data) texts (metadatas data)))"
    by (rule batch_pass_fallback)
  also have "map as_entry (zip3 (distances data) texts (metadatas data)) = entries_of data"
    by (simp add: entries_of_def d zip3_map_PStr)
  finally show ?thesis .
qed

lemma hash_of_image_snoc:
  "hash_of h ` set (acc @ [(d, t, m)]) = insert (h t) (hash_of h ` set acc)"
  by simp

lemma fallback_pass_keep:
  "dom seen = hash_of h ` set acc \<Longrightarrow>
   snd (fallback_pass h (seen, map as_entry acc) es) =
     map as_entry (foldl (keep_first (hash_of h)) acc (texts_of es)) \<and>
   dom (fst (fallback_pass h (seen, map as_entry acc) es)) =
     hash_of h ` set (foldl (keep_first (hash_of h)) acc (texts_of es))"
proof (induction es arbitrary: seen acc)
  case Nil
  then show ?case by simp
next
  case (Cons e es)
  obtain d x m where e: "e = (d, x, m)" by (cases e)
  show ?case
  proof (cases x)
    case (PStr t)
    show ?thesis
    proof (cases "seen (h t) = None")
      case True
      with Cons.prems have notin: "h t \<notin> hash_of h ` set acc" by (auto simp: domIff)
      have d': "dom (seen(h t \<mapsto> True)) = hash_of h ` set (acc @ [(d, t, m)])"
        using Cons.prems by simp
      have k: "keep_first (hash_of h) acc (d, t, m) = acc @ [(d, t, m)]"
        using notin by (simp add: keep_first_def)
      have m: "map as_entry (acc @ [(d, t, m)]) = map as_entry acc @ [(d, PStr t, m)]" by simp
      have s: "fallback_pass h (seen, map as_entry acc) (e # es) =
          fallback_pass h (seen(h t \<mapsto> True), map as_entry (acc @ [(d, t, m)])) es"
        unfolding m e PStr using True by (simp add: Let_def del: fun_upd_apply)
      from Cons.IH [OF d'] show ?thesis
        unfolding s by (simp only: e PStr texts_of.simps foldl_Cons k)
    next
      case False
      with Cons.prems have isin: "h t \<in> hash_of h ` set acc" by (auto simp: domIff)
      have k: "keep_first (hash_of h) acc (d, t, m) = acc"
        using isin by (simp add: keep_first_def)
      have s: "fallback_pass h (seen, map as_entry acc) (e # es) =
          fallback_pass h (seen, map as_entry acc) es"
        unfolding e PStr using False by (auto simp: Let_def)
      from Cons.IH [OF Cons.prems] show ?thesis
        unfolding s by (simp only: e PStr texts_of.simps foldl_Cons k)
    qed
  qed (use Cons.IH [OF Cons.prems] in \<open>simp_all add: e\<close>)
qed

lemma foldl_process_data:
  "dom seen = hash_of h ` set acc \<Longrightarrow>
   snd (foldl (process_data h) (seen, map as_entry acc) qrs) =
     map as_entry (foldl (keep_first (hash_of h)) acc (passages qrs)) \<and>
   dom (fst (foldl (process_data h) (seen, map as_entry acc) qrs)) =
     hash_of h ` set (foldl (keep_first (hash_of h)) acc (passages qrs))"
proof (induction qrs arbitrary: seen acc)
  case Nil
  then show ?case by (simp add: passages_def)
next
  case (Cons data qrs)
  let ?st = "fallback_pass h (seen, map as_entry acc) (entries_of data)"
  let ?acc = "foldl (keep_first (hash_of h)) acc (texts_of (entries_of data))"
  from fallback_pass_keep [OF Cons.prems, of "entries_of data"]
  have s: "snd ?st = map as_entry ?acc" and f: "dom (fst ?st) = hash_of h ` set ?acc"
    by simp_all
  have st: "?st = (fst ?st, map as_entry ?acc)" using s by (metis prod.collapse)
  from Cons.IH [OF f] show ?case
    by (simp add: process_data_fallback passages_def) (metis st)
qed

lemma combined_deduplicated:
  "snd (foldl (process_data h) (Map.empty, []) qrs) = map as_entry (deduplicated h qrs)"
  using foldl_process_data [of Map.empty h "[]" qrs]
  by (simp add: deduplicated_def first_seen_def)

lemma entries_of_unzip:
  "entries_of \<lparr>distances = map fst es, documents = map (fst \<circ> snd) es, metadatas = map (snd \<circ> snd) es\<rparr> = es"
  by (induction es) (auto simp: entries_of_def zip3_def)

lemma merge_entries:
  "entries_of (merge_and_sort_query_results h qrs k reverse) =
     py_slice_to k (py_sort fst reverse (map as_entry (deduplicated h qrs)))"
proof -
  obtain seen combined where st: "foldl (process_data h) (Map.empty, []) qrs = (seen, combined)"
    by (cases "foldl (process_data h) (Map.empty, []) qrs")
  with combined_deduplicated [of h qrs] have c: "combined = map as_entry (deduplicated h qrs)" by simp
  show ?thesis
  proof (cases "combined = []")
    case True
    then show ?thesis using c
      by (simp add: merge_and_sort_query_results_def st entries_of_def zip3_def py_slice_to_def py_sort_def)
  next
    case False
    then show ?thesis using c
      by (simp add: merge_and_sort_query_results_def st Let_def entries_of_unzip del: map_map)
  qed
qed

lemma hash_of_text: "hash_of h p = h (text_of p)"
  by (cases p) simp

lemma find_snoc:
  "List.find P (xs @ [a]) = (case List.find P xs of Some y \<Rightarrow> Some y | None \<Rightarrow> if P a then Some a else None)"
  by (induction xs) auto

lemma first_seen_snoc: "first_seen key (xs @ [a]) = keep_first key (first_seen key xs) a"
  by (simp add: first_seen_def)

lemma first_seen_keys: "key ` set (first_seen key xs) = key ` set xs"
  by (induction xs rule: rev_induct) (auto simp: first_seen_snoc keep_first_def first_seen_def)

lemma first_seen_subset: "set (first_seen key xs) \<subseteq> set xs"
  by (induction xs rule: rev_induct) (auto simp: first_seen_snoc keep_first_def first_seen_def)

lemma first_seen_distinct: "distinct (map key (first_seen key xs))"
  by (induction xs rule: rev_induct) (auto simp: first_seen_snoc keep_first_def first_seen_def)

lemma first_seen_length: "length (first_seen key xs) = card (key ` set xs)"
proof -
  have "length (first_seen key xs) = length (map key (first_seen key xs))" by simp
  also have "\<dots> = card (set (map key (first_seen key xs)))"
    by (rule distinct_card [symmetric]) (rule first_seen_distinct)
  also have "\<dots> = card (key ` set xs)" by (simp add: first_seen_keys)
  finally show ?thesis .
qed

lemma first_seen_find:
  "x \<in> set (first_seen key xs) \<Longrightarrow> List.find (\<lambda>y. key y = key x) xs = Some x"
proof (induction xs rule: rev_induct)
  case Nil
  then show ?case by (simp add: first_seen_def)
next
  case (snoc a xs)
  show ?case
  proof (cases "key a \<in> key ` set (first_seen key xs)")
    case True
    with snoc.prems have "x \<in> set (first_seen key xs)"
      by (simp add: first_seen_snoc keep_first_def)
    then show ?thesis using snoc.IH by (simp add: find_snoc)
  next
    case False
    show ?thesis
    proof (cases "x \<in> set (first_seen key xs)")
      case True
      then show ?thesis using snoc.IH by (simp add: find_snoc)
    next
      case notin: False
      with snoc.prems False have xa: "x = a" by (simp add: first_seen_snoc keep_first_def)
      from False have "key a \<notin> key ` set xs" by (simp add: first_seen_keys)
      then have "\<not> (\<exists>y. y \<in> set xs \<and> key y = key a)" by (metis imageI)
      then have "List.find (\<lambda>y. key y = key a) xs = None"
        by (simp only: find_None_iff not_False_eq_True)
      then show ?thesis by (simp add: find_snoc xa)
    qed
  qed
qed

lemma find_finer:
  assumes "List.find (\<lambda>y. f (g y) = f (g x)) xs = Some x"
  shows "List.find (\<lambda>y. g y = g x) xs = Some x"
  using assms by (induction xs) (auto split: if_splits)

lemma keep_first_absorb:
  "key ` set ys \<subseteq> key ` set acc \<Longrightarrow> foldl (keep_first key) acc ys = acc"
  by (induction ys arbitrary: acc) (auto simp: keep_first_def)

lemma first_seen_twice: "first_seen key (xs @ xs) = first_seen key xs"
  unfolding first_seen_def foldl_append
  by (rule keep_first_absorb) (simp add: first_seen_keys [unfolded first_seen_def])

lemma passages_append: "passages (qs @ rs) = passages qs @ passages rs"
  by (simp add: passages_def)

lemma deduplicated_twice: "deduplicated h (qrs @ qrs) = deduplicated h qrs"
  by (simp add: deduplicated_def passages_append first_seen_twice)

lemma py_sort_mset: "mset (py_sort key reverse xs) = mset xs"
  by (simp add: py_sort_def)

lemma py_sort_stable:
  "filter (\<lambda>x. key x = s) (py_sort key reverse xs) = filter (\<lambda>x. key x = s) xs"
  by (simp add: py_sort_def sort_key_stable rev_filter [symmetric])

lemma py_sort_sorted:
  "sorted_wrt (\<lambda>a b. if reverse then key b \<le> key a else key a \<le> key b) (py_sort key reverse xs)"
proof (cases reverse)
  case True
  have "sorted (map key (sort_key key (rev xs)))" by simp
  then have "sorted_wrt (\<lambda>a b. key a \<le> key b) (sort_key key (rev xs))"
    by (simp add: sorted_wrt_map)
  then show ?thesis using True by (simp add: py_sort_def sorted_wrt_rev)
next
  case False
  have "sorted (map key (sort_key key xs))" by simp
  then have "sorted_wrt (\<lambda>a b. key a \<le> key b) (sort_key key xs)"
    by (simp add: sorted_wrt_map)
  then show ?thesis using False by (simp add: py_sort_def)
qed

lemma py_slice_to_prefix: "prefix (py_slice_to k xs) xs"
  by (simp add: py_slice_to_def take_is_prefix)

lemma py_slice_to_length:
  "length (py_slice_to k xs) = (if 0 \<le> k then min (nat k) (length xs) else nat (int (length xs) + k))"
  by (auto simp: py_slice_to_def)

lemma sorted_wrt_prefix: "prefix xs ys \<Longrightarrow> sorted_wrt R ys \<Longrightarrow> sorted_wrt R xs"
  by (auto simp: prefix_def sorted_wrt_append)

lemma texts_of_as_entry: "texts_of (map as_entry ps) = ps"
  by (induction ps) auto

lemma merge_closed_form:
  "merge_and_sort_query_results h qrs k reverse =
    (let es = py_slice_to k (py_sort fst reverse (map as_entry (deduplicated h qrs))) in
     \<lparr>distances = map fst es, documents = map (fst \<circ> snd) es, metadatas = map (snd \<circ> snd) es\<rparr>)"
proof -
  obtain seen combined where st: "foldl (process_data h) (Map.empty, []) qrs = (seen, combined)"
    by (cases "foldl (process_data h) (Map.empty, []) qrs")
  with combined_deduplicated [of h qrs] have c: "combined = map as_entry (deduplicated h qrs)" by simp
  show ?thesis
  proof (cases "combined = []")
    case True
    then show ?thesis using c
      by (simp add: merge_and_sort_query_results_def st py_slice_to_def py_sort_def)
  next
    case False
    then show ?thesis using c
      by (simp add: merge_and_sort_query_results_def st Let_def del: map_map)
  qed
qed

lemma prefix_map_as_entry:
  assumes "prefix es (map as_entry ps)"
  shows "\<exists>qs. es = map as_entry qs \<and> prefix qs ps"
proof -
  from assms obtain n where "es = take n (map as_entry ps)"
    by (metis prefix_def append_eq_conv_conj)
  then have "es = map as_entry (take n ps)" by (simp add: take_map)
  then show ?thesis using take_is_prefix by blast
qed

lemma set_py_slice_to: "set (py_slice_to k xs) \<subseteq> set xs"
  by (auto simp: py_slice_to_def dest: in_set_takeD)

lemma set_py_sort: "set (py_sort key reverse xs) = set xs"
  by (simp add: py_sort_def)

lemma merge_entries_subset:
  "set (entries_of (merge_and_sort_query_results h qrs k reverse)) \<subseteq> as_entry ` set (deduplicated h qrs)"
  using set_py_slice_to [of k "py_sort fst reverse (map as_entry (deduplicated h qrs))"]
  by (simp add: merge_entries set_py_sort)

lemma sorted_by_key_unique:
  fixes R :: "'k \<Rightarrow> 'k \<Rightarrow> bool"
  assumes antisym: "\<And>a b. R a b \<Longrightarrow> R b a \<Longrightarrow> a = b"
  shows "sorted_wrt (\<lambda>a b. R (key a) (key b)) ys \<Longrightarrow> sorted_wrt (\<lambda>a b. R (key a) (key b)) zs \<Longrightarrow>
    (\<And>s. filter (\<lambda>x. key x = s) ys = filter (\<lambda>x. key x = s) zs) \<Longrightarrow> ys = zs"
proof (induction ys arbitrary: zs)
  case Nil
  show ?case
  proof (cases zs)
    case (Cons z zs')
    with Nil.prems(3) [of "key z"] show ?thesis by simp
  qed simp
next
  case (Cons y ys)
  have "y \<in> set (filter (\<lambda>x. key x = key y) (y # ys))" by simp
  then have "y \<in> set (filter (\<lambda>x. key x = key y) zs)"
    unfolding Cons.prems(3) [of "key y"] .
  then have yz: "y \<in> set zs" by simp
  then obtain z zs' where zs: "zs = z # zs'" by (cases zs) auto
  have "z \<in> set (filter (\<lambda>x. key x = key z) zs)" by (simp add: zs)
  then have "z \<in> set (filter (\<lambda>x. key x = key z) (y # ys))"
    unfolding Cons.prems(3) [of "key z"] .
  then have zy: "z \<in> set (y # ys)" by (simp del: filter.simps)
  have k: "key z = key y"
  proof (cases "y = z")
    case False
    with yz zs have "y \<in> set zs'" by simp
    with Cons.prems(2) zs have 1: "R (key z) (key y)" by auto
    from False zy have "z \<in> set ys" by simp
    with Cons.prems(1) have 2: "R (key y) (key z)" by auto
    from antisym [OF 1 2] show ?thesis .
  qed simp
  have f1: "filter (\<lambda>x. key x = key y) (y # ys) = y # filter (\<lambda>x. key x = key y) ys"
    by simp
  have f2: "filter (\<lambda>x. key x = key y) (z # zs') = z # filter (\<lambda>x. key x = key y) zs'"
    using k by simp
  from Cons.prems(3) [of "key y"]
  have "y # filter (\<lambda>x. key x = key y) ys = z # filter (\<lambda>x. key x = key y) zs'"
    unfolding zs f1 f2 .
  then have eq: "y = z" and tl: "filter (\<lambda>x. key x = key y) ys = filter (\<lambda>x. key x = key y) zs'"
    by blast+
  have "filter (\<lambda>x. key x = s) ys = filter (\<lambda>x. key x = s) zs'" for s
  proof (cases "s = key y")
    case True
    then show ?thesis using tl by simp
  next
    case False
    with Cons.prems(3) [of s] show ?thesis unfolding zs using k by auto
  qed
  moreover from Cons.prems(1) have "sorted_wrt (\<lambda>a b. R (key a) (key b)) ys" by simp
  moreover from Cons.prems(2) have "sorted_wrt (\<lambda>a b. R (key a) (key b)) zs'" unfolding zs by simp
  ultimately have "ys = zs'" by (rule Cons.IH [rotated 2])
  then show ?case by (simp add: zs eq)
qed

lemma stable_sort_unique:
  assumes "stable_sort_of key descending xs ys" and "stable_sort_of key descending xs zs"
  shows "ys = zs"
proof (rule sorted_by_key_unique [where R = "\<lambda>u v. if descending then v \<le> u else u \<le> v" and key = key])
  show "a = b" if "if descending then b \<le> a else a \<le> b" "if descending then a \<le> b else b \<le> a"
    for a b :: 'b
    using that by (auto split: if_splits)
  show "sorted_wrt (\<lambda>a b. if descending then key b \<le> key a else key a \<le> key b) ys"
    using assms(1) by (simp add: stable_sort_of_def)
  show "sorted_wrt (\<lambda>a b. if descending then key b \<le> key a else key a \<le> key b) zs"
    using assms(2) by (simp add: stable_sort_of_def)
  show "filter (\<lambda>x. key x = s) ys = filter (\<lambda>x. key x = s) zs" for s
    using assms by (simp add: stable_sort_of_def)
qed

lemma py_sort_stable_sort: "stable_sort_of key reverse xs (py_sort key reverse xs)"
  unfolding stable_sort_of_def
  by (intro conjI allI py_sort_mset py_sort_sorted py_sort_stable)

lemma first_seen_subseq: "subseq (first_seen key xs) xs"
proof (induction xs rule: rev_induct)
  case Nil
  show ?case by (simp add: first_seen_def)
next
  case (snoc a xs)
  show ?case
  proof (cases "key a \<in> key ` set (first_seen key xs)")
    case True
    then have "first_seen key (xs @ [a]) = first_seen key xs"
      by (simp add: first_seen_snoc keep_first_def)
    then show ?thesis using snoc.IH by (simp add: subseq_rev_drop_many)
  next
    case False
    then have "first_seen key (xs @ [a]) = first_seen key xs @ [a]"
      by (simp add: first_seen_snoc keep_first_def)
    then show ?thesis using snoc.IH by (simp add: list_emb_append_mono)
  qed
qed

lemma insort_key_map: "insort_key g (f x) (map f xs) = map f (insort_key (\<lambda>a. g (f a)) x xs)"
  by (induction xs) auto

lemma sort_key_map: "sort_key g (map f xs) = map f (sort_key (\<lambda>a. g (f a)) xs)"
  by (induction xs) (auto simp: insort_key_map)

lemma py_sort_map: "py_sort g reverse (map f xs) = map f (py_sort (\<lambda>a. g (f a)) reverse xs)"
  by (simp add: py_sort_def sort_key_map rev_map)

lemma py_slice_to_map: "py_slice_to k (map f xs) = map f (py_slice_to k xs)"
  by (simp add: py_slice_to_def take_map)

lemma fst_as_entry: "(\<lambda>a. fst (as_entry a)) = fst"
  by (rule ext) auto

lemma merge_passages:
  "entries_of (merge_and_sort_query_results h qrs k reverse) =
     map as_entry (py_slice_to k (py_sort fst reverse (deduplicated h qrs)))"
  by (simp add: merge_entries py_sort_map py_slice_to_map fst_as_entry)

lemma merge_result_texts:
  "result_texts (merge_and_sort_query_results h qrs k reverse) =
     map text_of (py_slice_to k (py_sort fst reverse (deduplicated h qrs)))"
  by (simp add: result_texts_def merge_passages texts_of_as_entry)

lemma merge_fields:
  "distances (merge_and_sort_query_results h qrs k reverse) =
     map fst (entries_of (merge_and_sort_query_results h qrs k reverse))"
  "documents (merge_and_sort_query_results h qrs k reverse) =
     map (fst \<circ> snd) (entries_of (merge_and_sort_query_results h qrs k reverse))"
  "metadatas (merge_and_sort_query_results h qrs k reverse) =
     map (snd \<circ> snd) (entries_of (merge_and_sort_query_results h qrs k reverse))"
  by (simp_all add: merge_entries) (simp_all add: merge_closed_form Let_def)

lemma doc_as_entry: "fst (snd (as_entry p)) = PStr (text_of p)"
  by (cases p) simp

lemma merge_documents:
  "documents (merge_and_sort_query_results h qrs k reverse) =
     map PStr (result_texts (merge_and_sort_query_results h qrs k reverse))"
  unfolding merge_fields(2) merge_result_texts merge_passages by (simp add: doc_as_entry)

lemma slice_sort_distinct:
  assumes "distinct (map key xs)"
  shows "distinct (map key (py_slice_to k (py_sort g reverse xs)))"
proof -
  have "mset (map key (py_sort g reverse xs)) = mset (map key xs)"
    by (simp add: py_sort_mset)
  with assms have "distinct (map key (py_sort g reverse xs))"
    by (metis mset_eq_imp_distinct_iff)
  then show ?thesis
    by (simp add: py_slice_to_def take_map [symmetric] del: take_map)
qed

lemma slice_sort_subset: "set (py_slice_to k (py_sort g reverse xs)) \<subseteq> set xs"
  using set_py_slice_to [of k "py_sort g reverse xs"] by (simp add: set_py_sort)

lemma merge_length:
  "length (entries_of (merge_and_sort_query_results h qrs k reverse)) =
    (if 0 \<le> k then min (nat k) (card (hash_of h ` set (passages qrs)))
     else nat (int (card (hash_of h ` set (passages qrs))) + k))"
proof -
  have "length (py_sort fst reverse (deduplicated h qrs)) = length (deduplicated h qrs)"
    by (metis py_sort_mset size_mset)
  also have "\<dots> = card (hash_of h ` set (passages qrs))"
    by (simp add: deduplicated_def first_seen_length)
  finally show ?thesis by (simp add: merge_passages py_slice_to_length)
qed

lemma merge_untruncated:
  assumes "0 \<le> k" and "int (card (hash_of h ` set (passages qrs))) \<le> k"
  shows "entries_of (merge_and_sort_query_results h qrs k reverse) =
    map as_entry (py_sort fst reverse (deduplicated h qrs))"
proof -
  have "length (py_sort fst reverse (deduplicated h qrs)) = length (deduplicated h qrs)"
    by (metis py_sort_mset size_mset)
  also have "\<dots> = card (hash_of h ` set (passages qrs))"
    by (simp add: deduplicated_def first_seen_length)
  finally show ?thesis using assms by (simp add: merge_passages py_slice_to_def)
qed

lemma hash_of_image: "hash_of h ` A = h ` text_of ` A"
  by (auto simp: hash_of_text image_iff)

lemma hash_of_map: "map (hash_of h) ps = map h (map text_of ps)"
  by (simp add: hash_of_text)

lemma hash_of_passages: "hash_of h ` set (passages qrs) = h ` set (passage_texts qrs)"
  by (simp add: passage_texts_def hash_of_image)

lemma find_hash_of: "List.find (\<lambda>q. hash_of h q = hash_of h p) xs = List.find (\<lambda>q. h (text_of q) = h (text_of p)) xs"
  by (simp add: hash_of_text)

lemmas eval_merge = merge_and_sort_query_results_def process_data_def zip3_def py_slice_to_def
  py_sort_def Let_def
lemmas eval_spec = passages_def passage_texts_def entries_of_def result_texts_def zip3_def

section \<open>Properties of merge\_and\_sort\_query\_results\<close>

text \<open>
  Claim C1. For every list of result sets, every passage text of the output is unique,
  by the content hash of the text (hence also as a text), and every entry of the output
  is the first-seen occurrence of its text in the flattened input: its distance and
  metadata are those of the first candidate with that text (and of the first candidate
  with that hash), so that later duplicates never appear. When the output is not
  truncated, the first-seen candidate of every hash of the input is in the output.
\<close>

theorem merge_unique_first_seen:
  fixes h :: "string \<Rightarrow> 'h" and query_results :: "('d::linorder, 'm) query_result list"
    and k :: int and reverse :: bool
  defines "out \<equiv> merge_and_sort_query_results h query_results k reverse"
  shows "documents out = map PStr (result_texts out) \<and>
         distinct (map h (result_texts out)) \<and> distinct (result_texts out) \<and>
         (\<forall>e \<in> set (entries_of out). \<exists>p. e = as_entry p \<and>
             List.find (\<lambda>q. text_of q = text_of p) (passages query_results) = Some p \<and>
             List.find (\<lambda>q. h (text_of q) = h (text_of p)) (passages query_results) = Some p) \<and>
         (0 \<le> k \<and> int (card (h ` set (passage_texts query_results))) \<le> k \<longrightarrow>
            (\<forall>p \<in> set (passages query_results). \<exists>q.
               List.find (\<lambda>q. h (text_of q) = h (text_of p)) (passages query_results) = Some q \<and>
               as_entry q \<in> set (entries_of out)))"
proof -
  let ?D = "deduplicated h query_results"
  let ?P = "py_slice_to k (py_sort fst reverse ?D)"
  have dD: "distinct (map (hash_of h) ?D)"
    by (simp add: deduplicated_def first_seen_distinct)
  have "distinct (map (hash_of h) ?P)" by (rule slice_sort_distinct [OF dD])
  then have dh: "distinct (map h (result_texts out))"
    by (simp add: out_def merge_result_texts hash_of_map)
  then have dt: "distinct (result_texts out)" by (simp add: distinct_map)
  have first: "List.find (\<lambda>q. text_of q = text_of p) (passages query_results) = Some p \<and>
      List.find (\<lambda>q. h (text_of q) = h (text_of p)) (passages query_results) = Some p"
    if "p \<in> set ?D" for p
  proof -
    from that have "List.find (\<lambda>q. hash_of h q = hash_of h p) (passages query_results) = Some p"
      unfolding deduplicated_def by (rule first_seen_find)
    then have f: "List.find (\<lambda>q. h (text_of q) = h (text_of p)) (passages query_results) = Some p"
      by (simp only: find_hash_of)
    from find_finer [where f = h and g = text_of, OF f] f show ?thesis by simp
  qed
  have ent: "\<exists>p. e = as_entry p \<and>
             List.find (\<lambda>q. text_of q = text_of p) (passages query_results) = Some p \<and>
             List.find (\<lambda>q. h (text_of q) = h (text_of p)) (passages query_results) = Some p"
    if "e \<in> set (entries_of out)" for e
  proof -
    from that obtain p where e: "e = as_entry p" and p: "p \<in> set ?P"
      by (auto simp: out_def merge_passages)
    from p have "p \<in> set ?D" by (rule subsetD [OF slice_sort_subset])
    from first [OF this] e show ?thesis by blast
  qed
  have surv: "\<exists>q. List.find (\<lambda>q. h (text_of q) = h (text_of p)) (passages query_results) = Some q \<and>
               as_entry q \<in> set (entries_of out)"
    if k: "0 \<le> k" "int (card (h ` set (passage_texts query_results))) \<le> k"
      and p: "p \<in> set (passages query_results)" for p
  proof -
    from k have "entries_of out = map as_entry (py_sort fst reverse ?D)"
      unfolding out_def by (intro merge_untruncated) (simp_all add: hash_of_passages)
    then have s: "set (entries_of out) = as_entry ` set ?D" by (simp add: set_py_sort)
    from p have "hash_of h p \<in> hash_of h ` set ?D"
      by (simp add: deduplicated_def first_seen_keys)
    then obtain q where q: "q \<in> set ?D" and hq: "hash_of h q = hash_of h p" by auto
    from first [OF q] hq have "List.find (\<lambda>q. h (text_of q) = h (text_of p)) (passages query_results) = Some q"
      by (simp add: hash_of_text)
    with q s show ?thesis by blast
  qed
  show ?thesis
    using dh dt ent surv by (simp add: out_def merge_documents)
qed

theorem merge_unique_first_seen_witness:
  "(0::int) \<le> 10 \<and>
   int (card ((\<lambda>s. s) ` set (passage_texts
     [\<lparr>distances = [3/10, 1/10::real], documents = [PStr ''a'', PStr ''b''], metadatas = [''m1'', ''m2'']\<rparr>,
      \<lparr>distances = [2/10, 5/10, 0], documents = [PStr ''b'', PNone, PStr ''c''], metadatas = [''m3'', ''m4'', ''m5'']\<rparr>]))) \<le> 10 \<and>
   result_texts (merge_and_sort_query_results (\<lambda>s. s)
     [\<lparr>distances = [3/10, 1/10::real], documents = [PStr ''a'', PStr ''b''], metadatas = [''m1'', ''m2'']\<rparr>,
      \<lparr>distances = [2/10, 5/10, 0], documents = [PStr ''b'', PNone, PStr ''c''], metadatas = [''m3'', ''m4'', ''m5'']\<rparr>]
     10 False) = [''c'', ''b'', ''a''] \<and>
   distinct (result_texts (merge_and_sort_query_results (\<lambda>s. s)
     [\<lparr>distances = [3/10, 1/10::real], documents = [PStr ''a'', PStr ''b''], metadatas = [''m1'', ''m2'']\<rparr>,
      \<lparr>distances = [2/10, 5/10, 0], documents = [PStr ''b'', PNone, PStr ''c''], metadatas = [''m3'', ''m4'', ''m5'']\<rparr>]
     10 False)) \<and>
   (1/10, PStr ''b'', ''m2'') \<in> set (entries_of (merge_and_sort_query_results (\<lambda>s. s)
     [\<lparr>distances = [3/10, 1/10::real], documents = [PStr ''a'', PStr ''b''], metadatas = [''m1'', ''m2'']\<rparr>,
      \<lparr>distances = [2/10, 5/10, 0], documents = [PStr ''b'', PNone, PStr ''c''], metadatas = [''m3'', ''m4'', ''m5'']\<rparr>]
     10 False)) \<and>
   List.find (\<lambda>q. text_of q = ''b'') (passages
     [\<lparr>distances = [3/10, 1/10::real], documents = [PStr ''a'', PStr ''b''], metadatas = [''m1'', ''m2'']\<rparr>,
      \<lparr>distances = [2/10, 5/10, 0], documents = [PStr ''b'', PNone, PStr ''c''], metadatas = [''m3'', ''m4'', ''m5'']\<rparr>])
     = Some (1/10, ''b'', ''m2'')"
  using merge_unique_first_seen [of "\<lambda>s. s"
     "[\<lparr>distances = [3/10, 1/10::real], documents = [PStr ''a'', PStr ''b''], metadatas = [''m1'', ''m2'']\<rparr>,
      \<lparr>distances = [2/10, 5/10, 0], documents = [PStr ''b'', PNone, PStr ''c''], metadatas = [''m3'', ''m4'', ''m5'']\<rparr>]"
     10 False]
  by (simp add: eval_merge eval_spec)

text \<open>
  Claim C2 (as amended). The output is exactly the first \<open>k\<close> entries (for negative
  \<open>k\<close>: all but the last \<open>-k\<close>) of the stable sort by score of the deduplicated
  first-seen flattened sequence, under the polarity flag; it is the whole stable sort
  when \<open>k\<close> is at least the length of that sequence. The stable sort exists and is
  unique. With the flag set every adjacent pair of output scores is non-increasing,
  without it non-decreasing, and the candidates of every score appear in the output
  in their first-seen order of the flattened input.
\<close>

theorem merge_sorted_stable_prefix:
  fixes h :: "string \<Rightarrow> 'h" and query_results :: "('d::linorder, 'm) query_result list"
    and k :: int and reverse :: bool
  defines "out \<equiv> merge_and_sort_query_results h query_results k reverse"
    and "D \<equiv> map as_entry (deduplicated h query_results)"
  shows "(\<exists>L. stable_sort_of fst reverse D L) \<and>
         (\<forall>L. stable_sort_of fst reverse D L \<longrightarrow> entries_of out = py_slice_to k L) \<and>
         (0 \<le> k \<and> int (length D) \<le> k \<longrightarrow> stable_sort_of fst reverse D (entries_of out)) \<and>
         (\<forall>i. Suc i < length (distances out) \<longrightarrow>
            (if reverse then distances out ! Suc i \<le> distances out ! i
             else distances out ! i \<le> distances out ! Suc i)) \<and>
         (\<forall>s. prefix (filter (\<lambda>e. fst e = s) (entries_of out)) (filter (\<lambda>e. fst e = s) D)) \<and>
         subseq D (map as_entry (passages query_results))"
proof -
  let ?L = "py_sort fst reverse D"
  have L: "stable_sort_of fst reverse D ?L" by (rule py_sort_stable_sort)
  have ent: "entries_of out = py_slice_to k ?L" by (simp add: out_def D_def merge_entries)
  have uniq: "entries_of out = py_slice_to k L'" if "stable_sort_of fst reverse D L'" for L'
    using stable_sort_unique [OF that L] ent by simp
  have full: "stable_sort_of fst reverse D (entries_of out)" if "0 \<le> k" "int (length D) \<le> k"
  proof -
    have "length ?L = length D" by (metis py_sort_mset size_mset)
    with that have "py_slice_to k ?L = ?L" by (simp add: py_slice_to_def)
    with ent L show ?thesis by simp
  qed
  have pre: "prefix (entries_of out) ?L" unfolding ent by (rule py_slice_to_prefix)
  from L have "sorted_wrt (\<lambda>a b. if reverse then fst b \<le> fst a else fst a \<le> fst b) ?L"
    by (simp add: stable_sort_of_def)
  with pre have "sorted_wrt (\<lambda>a b. if reverse then fst b \<le> fst a else fst a \<le> fst b) (entries_of out)"
    by (rule sorted_wrt_prefix)
  then have srt: "sorted_wrt (\<lambda>a b. if reverse then b \<le> a else a \<le> b) (distances out)"
    by (simp add: out_def merge_fields(1) sorted_wrt_map)
  have adj: "if reverse then distances out ! Suc i \<le> distances out ! i
             else distances out ! i \<le> distances out ! Suc i" if "Suc i < length (distances out)" for i
    using sorted_wrt_nth_less [OF srt _ that, of i] by (simp split: if_splits)
  have ties: "prefix (filter (\<lambda>e. fst e = s) (entries_of out)) (filter (\<lambda>e. fst e = s) D)" for s
    using filter_mono_prefix [OF pre, of "\<lambda>e. fst e = s"] by (simp add: py_sort_stable)
  have sub: "subseq D (map as_entry (passages query_results))"
    unfolding D_def deduplicated_def by (intro subseq_map first_seen_subseq)
  from L uniq full adj ties sub show ?thesis by blast
qed

theorem merge_sorted_stable_prefix_witness:
  "entries_of (merge_and_sort_query_results (\<lambda>s. s)
     [\<lparr>distances = [7/10, 3/10::real], documents = [PStr ''a'', PStr ''b''], metadatas = [''m1'', ''m2'']\<rparr>,
      \<lparr>distances = [7/10, 9/10], documents = [PStr ''c'', PStr ''a''], metadatas = [''m3'', ''m4'']\<rparr>]
     2 True) = [(7/10, PStr ''a'', ''m1''), (7/10, PStr ''c'', ''m3'')] \<and>
   stable_sort_of fst True (map as_entry (deduplicated (\<lambda>s. s)
     [\<lparr>distances = [7/10, 3/10::real], documents = [PStr ''a'', PStr ''b''], metadatas = [''m1'', ''m2'']\<rparr>,
      \<lparr>distances = [7/10, 9/10], documents = [PStr ''c'', PStr ''a''], metadatas = [''m3'', ''m4'']\<rparr>]))
     [(7/10, PStr ''a'', ''m1''), (7/10, PStr ''c'', ''m3''), (3/10, PStr ''b'', ''m2'')] \<and>
   py_slice_to 2 [(7/10::real, PStr ''a'', ''m1''), (7/10, PStr ''c'', ''m3''), (3/10, PStr ''b'', ''m2'')]
     = [(7/10, PStr ''a'', ''m1''), (7/10, PStr ''c'', ''m3'')]"
proof -
  let ?qrs = "[\<lparr>distances = [7/10, 3/10::real], documents = [PStr ''a'', PStr ''b''], metadatas = [''m1'', ''m2'']\<rparr>,
      \<lparr>distances = [7/10, 9/10], documents = [PStr ''c'', PStr ''a''], metadatas = [''m3'', ''m4'']\<rparr>]"
  have D: "map as_entry (deduplicated (\<lambda>s. s) ?qrs) =
      [(7/10, PStr ''a'', ''m1''), (3/10, PStr ''b'', ''m2''), (7/10, PStr ''c'', ''m3'')]"
    by (simp add: deduplicated_def first_seen_def keep_first_def eval_spec)
  have "py_sort fst True [(7/10::real, PStr ''a'', ''m1''), (3/10, PStr ''b'', ''m2''), (7/10, PStr ''c'', ''m3'')]
     = [(7/10, PStr ''a'', ''m1''), (7/10, PStr ''c'', ''m3''), (3/10, PStr ''b'', ''m2'')]"
    by (simp add: py_sort_def)
  with py_sort_stable_sort [of fst True "[(7/10::real, PStr ''a'', ''m1''), (3/10, PStr ''b'', ''m2''), (7/10, PStr ''c'', ''m3'')]"]
  have S: "stable_sort_of fst True (map as_entry (deduplicated (\<lambda>s. s) ?qrs))
     [(7/10, PStr ''a'', ''m1''), (7/10, PStr ''c'', ''m3''), (3/10, PStr ''b'', ''m2'')]"
    by (simp add: D)
  from merge_sorted_stable_prefix [of True "\<lambda>s. s" ?qrs 2] S
  show ?thesis by (simp add: py_slice_to_def)
qed

text \<open>
  The claim as stated, without truncation, fails: with two candidates and \<open>k = 1\<close> the
  output holds one entry and is not a stable sort of the two deduplicated candidates.
\<close>

theorem merge_not_whole_stable_sort:
  "\<not> stable_sort_of fst False
      (map as_entry (deduplicated (\<lambda>s. s)
        [\<lparr>distances = [1/10, 3/10::real], documents = [PStr ''a'', PStr ''b''], metadatas = [''m1'', ''m2'']\<rparr>]))
      (entries_of (merge_and_sort_query_results (\<lambda>s. s)
        [\<lparr>distances = [1/10, 3/10::real], documents = [PStr ''a'', PStr ''b''], metadatas = [''m1'', ''m2'']\<rparr>]
        1 False))"
  by (simp add: stable_sort_of_def deduplicated_def first_seen_def keep_first_def eval_spec eval_merge)

text \<open>
  Claim C3 (as amended). For every \<open>k \<ge> 0\<close> the length of the merged output is
  \<open>min(k, n)\<close>, where \<open>n\<close> is the number of passage texts of the input that are unique by
  content hash; \<open>n\<close> is the number of distinct texts when the hash has no collision
  among them. For negative \<open>k\<close> the length is \<open>max(0, n + k)\<close>. The three output
  sequences have the same length.
\<close>

theorem merge_output_length:
  fixes h :: "string \<Rightarrow> 'h" and query_results :: "('d::linorder, 'm) query_result list"
    and k :: int and reverse :: bool
  defines "out \<equiv> merge_and_sort_query_results h query_results k reverse"
    and "texts \<equiv> set (passage_texts query_results)"
  shows "length (documents out) =
           (if 0 \<le> k then min (nat k) (card (h ` texts)) else nat (int (card (h ` texts)) + k)) \<and>
         length (distances out) = length (documents out) \<and>
         length (metadatas out) = length (documents out) \<and>
         (0 \<le> k \<longrightarrow> int (length (documents out)) = min k (int (card (h ` texts)))) \<and>
         (0 \<le> k \<and> inj_on h texts \<longrightarrow> int (length (documents out)) = min k (int (card texts)))"
proof -
  have len: "length (entries_of out) =
      (if 0 \<le> k then min (nat k) (card (h ` texts)) else nat (int (card (h ` texts)) + k))"
    unfolding out_def texts_def by (simp only: merge_length hash_of_passages)
  have d: "length (documents out) = length (entries_of out)"
    and ds: "length (distances out) = length (entries_of out)"
    and ms: "length (metadatas out) = length (entries_of out)"
    unfolding out_def by (simp_all add: merge_fields)
  have inj: "card (h ` texts) = card texts" if "inj_on h texts"
    using that by (rule card_image)
  have m: "int (min (nat k) n) = min k (int n)" if "0 \<le> k" for n
    using that by (auto simp: min_def)
  from len d ds ms inj m show ?thesis by auto
qed

theorem merge_output_length_witness:
  "(0::int) \<le> 2 \<and> inj_on (\<lambda>s. s) (set (passage_texts
     [\<lparr>distances = [3/10, 1/10::real], documents = [PStr ''a'', PStr ''b''], metadatas = [''m1'', ''m2'']\<rparr>,
      \<lparr>distances = [7/10, 1/2, 0], documents = [PStr ''b'', PNone, PStr ''c''], metadatas = [''m3'', ''m4'', ''m5'']\<rparr>])) \<and>
   card (set (passage_texts
     [\<lparr>distances = [3/10, 1/10::real], documents = [PStr ''a'', PStr ''b''], metadatas = [''m1'', ''m2'']\<rparr>,
      \<lparr>distances = [7/10, 1/2, 0], documents = [PStr ''b'', PNone, PStr ''c''], metadatas = [''m3'', ''m4'', ''m5'']\<rparr>])) = 3 \<and>
   length (documents (merge_and_sort_query_results (\<lambda>s. s)
     [\<lparr>distances = [3/10, 1/10::real], documents = [PStr ''a'', PStr ''b''], metadatas = [''m1'', ''m2'']\<rparr>,
      \<lparr>distances = [7/10, 1/2, 0], documents = [PStr ''b'', PNone, PStr ''c''], metadatas = [''m3'', ''m4'', ''m5'']\<rparr>]
     2 False)) = 2"
  using merge_output_length [where k = 2 and h = "\<lambda>s. s" and reverse = False and query_results =
     "[\<lparr>distances = [3/10, 1/10::real], documents = [PStr ''a'', PStr ''b''], metadatas = [''m1'', ''m2'']\<rparr>,
      \<lparr>distances = [7/10, 1/2, 0], documents = [PStr ''b'', PNone, PStr ''c''], metadatas = [''m3'', ''m4'', ''m5'']\<rparr>]"]
  by (simp add: eval_merge eval_spec)

text \<open>
  The claim as stated, for all \<open>k\<close>, fails at \<open>k = -1\<close>: \<open>del combined[-1:]\<close> removes the
  last of two entries, and the output has length 1, not \<open>min(-1, 2)\<close>.
\<close>

theorem merge_length_negative_k:
  "length (documents (merge_and_sort_query_results (\<lambda>s. s)
     [\<lparr>distances = [1/10, 3/10::real], documents = [PStr ''a'', PStr ''b''], metadatas = [''m1'', ''m2'']\<rparr>]
     (- 1) False)) = 1 \<and>
   card (set (passage_texts
     [\<lparr>distances = [1/10, 3/10::real], documents = [PStr ''a'', PStr ''b''], metadatas = [''m1'', ''m2'']\<rparr>])) = 2 \<and>
   int (length (documents (merge_and_sort_query_results (\<lambda>s. s)
     [\<lparr>distances = [1/10, 3/10::real], documents = [PStr ''a'', PStr ''b''], metadatas = [''m1'', ''m2'']\<rparr>]
     (- 1) False))) \<noteq>
   min (- 1) (int (card (set (passage_texts
     [\<lparr>distances = [1/10, 3/10::real], documents = [PStr ''a'', PStr ''b''], metadatas = [''m1'', ''m2'']\<rparr>]))))"
  by (simp add: eval_merge eval_spec)

text \<open>
  Claim C8. Merging is idempotent under duplication of the input: merging the list of
  result sets appended to itself gives the same output as merging it once, for every
  \<open>k\<close>, polarity flag and hash function.
\<close>

theorem merge_twice:
  "merge_and_sort_query_results h (query_results @ query_results) k reverse =
   merge_and_sort_query_results h query_results k reverse"
  by (simp only: merge_closed_form deduplicated_twice)

theorem merge_twice_witness:
  "merge_and_sort_query_results (\<lambda>s. s)
     ([\<lparr>distances = [3/10, 1/10::real], documents = [PStr ''a'', PStr ''b''], metadatas = [''m1'', ''m2'']\<rparr>] @
      [\<lparr>distances = [3/10, 1/10::real], documents = [PStr ''a'', PStr ''b''], metadatas = [''m1'', ''m2'']\<rparr>])
     5 False =
   \<lparr>distances = [1/10, 3/10], documents = [PStr ''b'', PStr ''a''], metadatas = [''m2'', ''m1'']\<rparr>"
proof -
  have "merge_and_sort_query_results (\<lambda>s. s)
     [\<lparr>distances = [3/10, 1/10::real], documents = [PStr ''a'', PStr ''b''], metadatas = [''m1'', ''m2'']\<rparr>]
     5 False =
   \<lparr>distances = [1/10, 3/10], documents = [PStr ''b'', PStr ''a''], metadatas = [''m2'', ''m1'']\<rparr>"
    by (simp add: eval_merge)
  then show ?thesis by (simp only: merge_twice)
qed

text \<open>
  Claim C9. On the empty list of result sets, and on result sets that hold no candidate
  with a passage text (for instance none with a document), the merger returns the
  result with the empty sequence in each of its three fields. The function is total:
  it returns a result dictionary on every input of the model.
\<close>

theorem merge_empty:
  fixes h :: "string \<Rightarrow> 'h" and query_results :: "('d::linorder, 'm) query_result list"
  shows "merge_and_sort_query_results h ([] :: ('d, 'm) query_result list) k reverse =
           \<lparr>distances = [], documents = [], metadatas = []\<rparr> \<and>
         (passages query_results = [] \<longrightarrow>
            merge_and_sort_query_results h query_results k reverse =
              \<lparr>distances = [], documents = [], metadatas = []\<rparr>) \<and>
         ((\<forall>data \<in> set query_results. documents data = []) \<longrightarrow>
            merge_and_sort_query_results h query_results k reverse =
              \<lparr>distances = [], documents = [], metadatas = []\<rparr>)"
proof -
  have e: "merge_and_sort_query_results h qrs k reverse =
      \<lparr>distances = [], documents = [], metadatas = []\<rparr>" if "passages qrs = []"
    for qrs :: "('d, 'm) query_result list"
    using that
    by (simp add: merge_closed_form deduplicated_def first_seen_def py_sort_def py_slice_to_def)
  have n: "passages query_results = []" if "\<forall>data \<in> set query_results. documents data = []"
    using that by (simp add: passages_def entries_of_def zip3_def)
  have "passages ([] :: ('d, 'm) query_result list) = []" by (simp add: passages_def)
  with e n show ?thesis by blast
qed

theorem merge_empty_witness:
  "passages [\<lparr>distances = [1/10::real], documents = [PNone], metadatas = [''m1'']\<rparr>,
             \<lparr>distances = [], documents = [], metadatas = []\<rparr>] = [] \<and>
   merge_and_sort_query_results (\<lambda>s. s)
     [\<lparr>distances = [1/10::real], documents = [PNone], metadatas = [''m1'']\<rparr>,
      \<lparr>distances = [], documents = [], metadatas = []\<rparr>] 5 True =
     \<lparr>distances = [], documents = [], metadatas = []\<rparr> \<and>
   merge_and_sort_query_results (\<lambda>s. s) ([] :: (real, string) query_result list) 5 True =
     \<lparr>distances = [], documents = [], metadatas = []\<rparr>"
proof -
  have p: "passages [\<lparr>distances = [1/10::real], documents = [PNone], metadatas = [''m1'']\<rparr>,
             \<lparr>distances = [], documents = [], metadatas = []\<rparr>] = []"
    by (simp add: eval_spec)
  from merge_empty [where h = "\<lambda>s. s" and k = 5 and reverse = True and query_results =
      "[\<lparr>distances = [1/10::real], documents = [PNone], metadatas = [''m1'']\<rparr>,
             \<lparr>distances = [], documents = [], metadatas = []\<rparr>]"] p
  show ?thesis by simp
qed

section \<open>The fan-out functions\<close>

lemma foldl_fetch:
  "foldl (\<lambda>collection_data collection_name. collection_data(collection_name \<mapsto> g collection_name)) m names cn =
     (if cn \<in> set names then Some (g cn) else m cn)"
  by (induction names arbitrary: m) auto

lemma fetch_collection_data_apply:
  "fetch_collection_data get names cn =
     (if cn \<in> set names then Some (case get cn of Inr data \<Rightarrow> data | Inl e \<Rightarrow> None) else None)"
  unfolding fetch_collection_data_def by (simp add: foldl_fetch)

lemma process_query_fetch:
  "cn \<in> set names \<Longrightarrow>
   process_query hybrid (fetch_collection_data get names) k k_reranker r cn q =
     (case get cn of
        Inr (Some data) \<Rightarrow>
          (case hybrid cn data q k k_reranker r of
             Inr result \<Rightarrow> (Some result, None)
           | Inl e \<Rightarrow> (None, Some e))
      | _ \<Rightarrow> (None, Some (unavailable cn)))"
  by (simp add: process_query_def fetch_collection_data_apply split: sum.splits option.splits)

lemma process_query_own:
  "cn \<in> set names \<Longrightarrow>
   process_query hybrid (fetch_collection_data get names) k k_reranker r cn q =
   process_query hybrid (fetch_collection_data get [cn]) k k_reranker r cn q"
  by (simp add: process_query_fetch)

lemma process_query_cases:
  "(\<exists>result. process_query hybrid cd k k_reranker r cn q = (Some result, None)) \<or>
   (\<exists>e. process_query hybrid cd k k_reranker r cn q = (None, Some e))"
  by (simp add: process_query_def split: sum.splits option.splits)

lemma product_map:
  "map (\<lambda>(cn, q). f cn q) (List.product names queries) =
     concat (map (\<lambda>cn. map (\<lambda>q. f cn q) queries) names)"
proof (induction names)
  case Nil
  show ?case by simp
next
  case (Cons a names)
  have h: "map (\<lambda>(cn, q). f cn q) (map (Pair a) queries) = map (\<lambda>q. f a q) queries"
    by (induction queries) simp_all
  show ?case
    by (simp only: List.product.simps map_append h Cons.IH list.map concat.simps)
qed

lemma map_own:
  "set xs \<subseteq> set names \<Longrightarrow>
   map (\<lambda>cn. map (\<lambda>q. process_query hybrid (fetch_collection_data get names) k kr r cn q) queries) xs =
   map (\<lambda>cn. map (\<lambda>q. process_query hybrid (fetch_collection_data get [cn]) k kr r cn q) queries) xs"
  by (induction xs) (simp_all add: process_query_fetch)

lemma hybrid_task_results_own:
  "hybrid_task_results get hybrid names queries k kr r =
     concat (map (\<lambda>cn. map (\<lambda>q. process_query hybrid (fetch_collection_data get [cn]) k kr r cn q)
                     queries) names)"
  unfolding hybrid_task_results_def Let_def product_map
  by (simp only: map_own [OF subset_refl])

lemma collect_task_results_eq:
  "collect_task_results trs (results, error) =
     (results @ successes trs, error \<or> (\<exists>tr \<in> set trs. snd tr \<noteq> None))"
proof (induction trs arbitrary: results error)
  case Nil
  show ?case by simp
next
  case (Cons tr trs)
  obtain res err where tr: "tr = (res, err)" by (cases tr)
  show ?case unfolding tr by (cases res; cases err) (simp_all add: Cons.IH)
qed

lemma successes_append: "successes (xs @ ys) = successes xs @ successes ys"
  by (induction xs rule: successes.induct) simp_all

lemma successes_empty_iff:
  assumes "\<forall>tr \<in> set trs. (\<exists>result. tr = (Some result, None)) \<or> (\<exists>e. tr = (None, Some e))"
  shows "successes trs = [] \<longleftrightarrow> (\<forall>tr \<in> set trs. snd tr \<noteq> None)"
  using assms by (induction trs rule: successes.induct) auto

lemma hybrid_task_results_shape:
  assumes "tr \<in> set (hybrid_task_results get hybrid names queries k kr r)"
  shows "(\<exists>result. tr = (Some result, None)) \<or> (\<exists>e. tr = (None, Some e))"
proof -
  from assms obtain cn q
    where "tr = process_query hybrid (fetch_collection_data get names) k kr r cn q"
    by (auto simp: hybrid_task_results_def)
  with process_query_cases [of hybrid "fetch_collection_data get names" k kr r cn q]
  show ?thesis by simp
qed

lemma hybrid_search_eq:
  "query_collection_with_hybrid_search h VECTOR_DB get hybrid names queries k kr r =
     (let trs = hybrid_task_results get hybrid names queries k kr r in
      if trs \<noteq> [] \<and> (\<forall>tr \<in> set trs. snd tr \<noteq> None) then Inl all_failed
      else Inr (merge_and_sort_query_results h (successes trs) k (VECTOR_DB \<noteq> ''chroma'')))"
proof -
  let ?trs = "hybrid_task_results get hybrid names queries k kr r"
  let ?error = "\<exists>tr \<in> set ?trs. snd tr \<noteq> None"
  have s: "successes ?trs = [] \<longleftrightarrow> (\<forall>tr \<in> set ?trs. snd tr \<noteq> None)"
    by (rule successes_empty_iff) (blast dest: hybrid_task_results_shape)
  have c: "collect_task_results ?trs ([], False) = (successes ?trs, ?error)"
    by (simp add: collect_task_results_eq)
  have q: "query_collection_with_hybrid_search h VECTOR_DB get hybrid names queries k kr r =
      (if ?error \<and> successes ?trs = [] then Inl all_failed
       else Inr (merge_and_sort_query_results h (successes ?trs) k (VECTOR_DB \<noteq> ''chroma'')))"
    unfolding query_collection_with_hybrid_search_def Let_def c by simp
  show ?thesis
  proof (cases "?trs \<noteq> [] \<and> (\<forall>tr \<in> set ?trs. snd tr \<noteq> None)")
    case True
    then have "?error" by (cases ?trs) simp_all
    moreover from True s have "successes ?trs = []" by blast
    ultimately show ?thesis unfolding q Let_def using True by simp
  next
    case False
    have "\<not> (?error \<and> successes ?trs = [])"
    proof 
      assume a: "?error \<and> successes ?trs = []"
      then have "?trs \<noteq> []" by auto
      moreover from a s have "\<forall>tr \<in> set ?trs. snd tr \<noteq> None" by blast
      ultimately show False using False by blast
    qed
    then show ?thesis unfolding q Let_def using False by simp
  qed
qed

lemma hybrid_task_results_length:
  "length (hybrid_task_results get hybrid names queries k kr r) = length names * length queries"
  by (simp add: hybrid_task_results_def)

lemma successes_concat: "successes (concat xss) = concat (map successes xss)"
  by (induction xss) (simp_all add: successes_append)

lemma concat_map_removeAll:
  "g c = [] \<Longrightarrow> concat (map g (removeAll c names)) = concat (map g names)"
  by (induction names) auto

lemma successes_unavailable:
  assumes "\<forall>data. get c \<noteq> Inr (Some data)"
  shows "successes (map (\<lambda>q. process_query hybrid (fetch_collection_data get [c]) k kr r c q) queries) = []"
proof -
  have "process_query hybrid (fetch_collection_data get [c]) k kr r c q = (None, Some (unavailable c))"
    for q using assms
    by (simp add: process_query_fetch split: sum.splits option.splits)
  then show ?thesis by (induction queries) simp_all
qed

lemma successes_removeAll:
  assumes "\<forall>data. get c \<noteq> Inr (Some data)"
  shows "successes (hybrid_task_results get hybrid (removeAll c names) queries k kr r) =
         successes (hybrid_task_results get hybrid names queries k kr r)"
  unfolding hybrid_task_results_own successes_concat map_map comp_def
  by (rule concat_map_removeAll) (rule successes_unavailable [where get = get and c = c, OF assms])

lemma hybrid_search_success:
  assumes "successes (hybrid_task_results get hybrid names queries k kr r) \<noteq> []"
  shows "query_collection_with_hybrid_search h VECTOR_DB get hybrid names queries k kr r =
     Inr (merge_and_sort_query_results h
            (successes (hybrid_task_results get hybrid names queries k kr r)) k (VECTOR_DB \<noteq> ''chroma''))"
proof -
  let ?trs = "hybrid_task_results get hybrid names queries k kr r"
  have "successes ?trs = [] \<longleftrightarrow> (\<forall>tr \<in> set ?trs. snd tr \<noteq> None)"
    by (rule successes_empty_iff) (blast dest: hybrid_task_results_shape)
  with assms have "\<not> (\<forall>tr \<in> set ?trs. snd tr \<noteq> None)" by blast
  then show ?thesis unfolding hybrid_search_eq Let_def by simp
qed

lemmas eval_hybrid = query_collection_with_hybrid_search_def hybrid_task_results_def
  fetch_collection_data_def process_query_def Let_def

lemmas eval_dense = query_collection_def query_doc_def

lemma query_collection_names_skip:
  "query_collection_names (skip_failures search) v k results names =
   query_collection_names search v k results names"
  by (induction names arbitrary: results)
    (simp_all add: query_doc_def skip_failures_def split: sum.splits option.splits)

lemma query_collection_queries_skip:
  "query_collection_queries (skip_failures search) embedding_function names k results queries =
   query_collection_queries search embedding_function names k results queries"
  by (induction queries arbitrary: results)
    (simp_all add: query_collection_names_skip split: sum.splits)

lemma query_collection_queries_error:
  "query_collection_queries search embedding_function names k results queries = Inl e \<Longrightarrow>
   \<exists>q \<in> set queries. embedding_function q = Inl e"
  by (induction queries arbitrary: results) (auto split: sum.splits)

lemma query_collection_queries_returns:
  "\<forall>q \<in> set queries. \<exists>v. embedding_function q = Inr v \<Longrightarrow>
   \<exists>rs. query_collection_queries search embedding_function names k results queries = Inr rs"
  by (induction queries arbitrary: results) (auto split: sum.splits)

lemma query_collection_names_all_fail:
  "\<forall>cn \<in> set names. \<exists>e. search cn v k = Inl e \<Longrightarrow>
   query_collection_names search v k results names = results"
  by (induction names arbitrary: results) (auto simp: query_doc_def split: sum.splits option.splits)

lemma query_collection_queries_all_fail:
  "\<forall>q \<in> set queries. \<exists>v. embedding_function q = Inr v \<Longrightarrow>
   \<forall>cn \<in> set names. \<forall>v. \<exists>e. search cn v k = Inl e \<Longrightarrow>
   query_collection_queries search embedding_function names k results queries = Inr results"
  by (induction queries arbitrary: results)
     (auto simp: query_collection_names_all_fail split: sum.splits)

text \<open>
  Claim C4. There are \<open>|collection_names| * |queries|\<close> tasks. When there is at least one
  task and every task fails, \<open>query_collection_with_hybrid_search\<close> raises the aggregate
  error and returns no result. It raises nothing else, and it raises only when there is
  a task and no task succeeded: every task returned no result and an error.
\<close>

theorem hybrid_total_failure:
  fixes h :: "string \<Rightarrow> 'h" and get :: "string \<Rightarrow> exn + 'c option"
    and hybrid :: "string \<Rightarrow> 'c \<Rightarrow> string \<Rightarrow> int \<Rightarrow> int \<Rightarrow> real \<Rightarrow> exn + ('d::linorder, 'm) query_result"
    and collection_names queries :: "string list" and k k_reranker :: int and r :: real
    and VECTOR_DB :: string
  defines "task_results \<equiv> hybrid_task_results get hybrid collection_names queries k k_reranker r"
    and "res \<equiv> query_collection_with_hybrid_search h VECTOR_DB get hybrid collection_names queries
                  k k_reranker r"
  shows "length task_results = length collection_names * length queries \<and>
         (task_results \<noteq> [] \<and> (\<forall>tr \<in> set task_results. snd tr \<noteq> None) \<longrightarrow> res = Inl all_failed) \<and>
         (\<forall>e. res = Inl e \<longrightarrow>
            e = all_failed \<and> task_results \<noteq> [] \<and>
            (\<forall>tr \<in> set task_results. fst tr = None \<and> snd tr \<noteq> None))"
proof -
  have len: "length task_results = length collection_names * length queries"
    unfolding task_results_def by (rule hybrid_task_results_length)
  have eq: "res = (if task_results \<noteq> [] \<and> (\<forall>tr \<in> set task_results. snd tr \<noteq> None) then Inl all_failed
      else Inr (merge_and_sort_query_results h (successes task_results) k (VECTOR_DB \<noteq> ''chroma'')))"
    unfolding res_def task_results_def hybrid_search_eq Let_def ..
  have shape: "fst tr = None" if "tr \<in> set task_results" "snd tr \<noteq> None" for tr
    using hybrid_task_results_shape [OF that(1) [unfolded task_results_def]] that(2) by auto
  have raise: "res = Inl all_failed"
    if "task_results \<noteq> [] \<and> (\<forall>tr \<in> set task_results. snd tr \<noteq> None)"
    using that eq by simp
  have only: "e = all_failed \<and> task_results \<noteq> [] \<and>
            (\<forall>tr \<in> set task_results. fst tr = None \<and> snd tr \<noteq> None)" if "res = Inl e" for e
  proof -
    from that eq have c: "task_results \<noteq> [] \<and> (\<forall>tr \<in> set task_results. snd tr \<noteq> None)"
      by (auto split: if_splits)
    with that eq have "e = all_failed" by simp
    with c shape show ?thesis by blast
  qed
  from len raise only show ?thesis by blast
qed

theorem hybrid_total_failure_witness:
  "hybrid_task_results (\<lambda>cn. if cn = ''c1'' then Inl (Exception ''down'') else Inr (Some ()))
      (\<lambda>cn data q k kr r. Inl (Exception ''no retriever'') :: exn + (real, string) query_result)
      [''c1'', ''c2''] [''q1'', ''q2''] 3 3 0 =
     [(None, Some (unavailable ''c1'')), (None, Some (unavailable ''c1'')),
      (None, Some (Exception ''no retriever'')), (None, Some (Exception ''no retriever''))] \<and>
   query_collection_with_hybrid_search (\<lambda>s. s) ''chroma''
      (\<lambda>cn. if cn = ''c1'' then Inl (Exception ''down'') else Inr (Some ()))
      (\<lambda>cn data q k kr r. Inl (Exception ''no retriever'') :: exn + (real, string) query_result)
      [''c1'', ''c2''] [''q1'', ''q2''] 3 3 0 = Inl all_failed"
  using hybrid_total_failure [where h = "\<lambda>s. s" and VECTOR_DB = "''chroma''"
      and get = "\<lambda>cn. if cn = ''c1'' then Inl (Exception ''down'') else Inr (Some ())"
      and hybrid = "\<lambda>cn data q k kr r. Inl (Exception ''no retriever'') :: exn + (real, string) query_result"
      and collection_names = "[''c1'', ''c2'']" and queries = "[''q1'', ''q2'']"
      and k = 3 and k_reranker = 3 and r = 0]
  by (simp add: hybrid_task_results_def fetch_collection_data_def process_query_def)

text \<open>
  Claim C5. When at least one task succeeds, \<open>query_collection_with_hybrid_search\<close> raises
  no error and returns the merge of the results of the successful tasks only. When the
  snapshot fetch of a collection fails (or returns nothing), every task of that
  collection fails as unavailable. The result of every task is the one it has when its
  collection is queried alone, so the tasks of the other collections are unaffected, and
  the merged result is that of the call without the failed collection.
\<close>

theorem hybrid_partial_failure:
  fixes h :: "string \<Rightarrow> 'h" and get :: "string \<Rightarrow> exn + 'c option"
    and hybrid :: "string \<Rightarrow> 'c \<Rightarrow> string \<Rightarrow> int \<Rightarrow> int \<Rightarrow> real \<Rightarrow> exn + ('d::linorder, 'm) query_result"
    and collection_names queries :: "string list" and k k_reranker :: int and r :: real
    and VECTOR_DB :: string
  defines "task_results \<equiv> hybrid_task_results get hybrid collection_names queries k k_reranker r"
  shows "((\<exists>tr \<in> set task_results. snd tr = None) \<longrightarrow>
            query_collection_with_hybrid_search h VECTOR_DB get hybrid collection_names queries
              k k_reranker r =
            Inr (merge_and_sort_query_results h (successes task_results) k (VECTOR_DB \<noteq> ''chroma''))) \<and>
         (\<forall>c \<in> set collection_names. (\<forall>data. get c \<noteq> Inr (Some data)) \<longrightarrow>
            (\<forall>q. process_query hybrid (fetch_collection_data get collection_names) k k_reranker r c q =
                   (None, Some (unavailable c)))) \<and>
         task_results =
           concat (map (\<lambda>cn. map (\<lambda>q. process_query hybrid (fetch_collection_data get [cn])
                                          k k_reranker r cn q) queries) collection_names) \<and>
         (\<forall>c. (\<forall>data. get c \<noteq> Inr (Some data)) \<and> (\<exists>tr \<in> set task_results. snd tr = None) \<longrightarrow>
            query_collection_with_hybrid_search h VECTOR_DB get hybrid collection_names queries
              k k_reranker r =
            query_collection_with_hybrid_search h VECTOR_DB get hybrid (removeAll c collection_names)
              queries k k_reranker r)"
proof -
  have ne: "successes task_results \<noteq> []" if "\<exists>tr \<in> set task_results. snd tr = None"
  proof -
    have "successes task_results = [] \<longleftrightarrow> (\<forall>tr \<in> set task_results. snd tr \<noteq> None)"
      unfolding task_results_def
      by (rule successes_empty_iff) (blast dest: hybrid_task_results_shape)
    with that show ?thesis by blast
  qed
  have A: "query_collection_with_hybrid_search h VECTOR_DB get hybrid collection_names queries
              k k_reranker r =
            Inr (merge_and_sort_query_results h (successes task_results) k (VECTOR_DB \<noteq> ''chroma''))"
    if "\<exists>tr \<in> set task_results. snd tr = None"
    using ne [OF that] unfolding task_results_def by (rule hybrid_search_success)
  have B: "process_query hybrid (fetch_collection_data get collection_names) k k_reranker r c q =
                   (None, Some (unavailable c))"
    if "c \<in> set collection_names" "\<forall>data. get c \<noteq> Inr (Some data)" for c q
    using that by (simp add: process_query_fetch split: sum.splits option.splits)
  have C: "task_results =
           concat (map (\<lambda>cn. map (\<lambda>q. process_query hybrid (fetch_collection_data get [cn])
                                          k k_reranker r cn q) queries) collection_names)"
    unfolding task_results_def by (rule hybrid_task_results_own)
  have D: "query_collection_with_hybrid_search h VECTOR_DB get hybrid collection_names queries
              k k_reranker r =
            query_collection_with_hybrid_search h VECTOR_DB get hybrid (removeAll c collection_names)
              queries k k_reranker r"
    if c: "\<forall>data. get c \<noteq> Inr (Some data)" and s: "\<exists>tr \<in> set task_results. snd tr = None" for c
  proof -
    have e: "successes (hybrid_task_results get hybrid (removeAll c collection_names) queries k k_reranker r)
        = successes task_results"
      unfolding task_results_def by (rule successes_removeAll [where get = get and c = c, OF c])
    with ne [OF s] have "successes (hybrid_task_results get hybrid (removeAll c collection_names) queries k k_reranker r) \<noteq> []"
      by simp
    from hybrid_search_success [OF this, where h = h and VECTOR_DB = VECTOR_DB] A [OF s] e
    show ?thesis by simp
  qed
  from A B C D show ?thesis by blast
qed

theorem hybrid_partial_failure_witness:
  "hybrid_task_results (\<lambda>cn. if cn = ''b'' then Inl (Exception ''down'') else Inr (Some ()))
      (\<lambda>cn data q k kr r. Inr \<lparr>distances = [if cn = ''a'' then 7/10 else 9/10::real],
                                documents = [PStr cn], metadatas = [q]\<rparr>)
      [''a'', ''b'', ''c''] [''q''] 5 3 0 =
     [(Some \<lparr>distances = [7/10], documents = [PStr ''a''], metadatas = [''q'']\<rparr>, None),
      (None, Some (unavailable ''b'')),
      (Some \<lparr>distances = [9/10], documents = [PStr ''c''], metadatas = [''q'']\<rparr>, None)] \<and>
   query_collection_with_hybrid_search (\<lambda>s. s) ''pgvector''
      (\<lambda>cn. if cn = ''b'' then Inl (Exception ''down'') else Inr (Some ()))
      (\<lambda>cn data q k kr r. Inr \<lparr>distances = [if cn = ''a'' then 7/10 else 9/10::real],
                                documents = [PStr cn], metadatas = [q]\<rparr>)
      [''a'', ''b'', ''c''] [''q''] 5 3 0 =
     Inr \<lparr>distances = [9/10, 7/10], documents = [PStr ''c'', PStr ''a''], metadatas = [''q'', ''q'']\<rparr> \<and>
   query_collection_with_hybrid_search (\<lambda>s. s) ''pgvector''
      (\<lambda>cn. if cn = ''b'' then Inl (Exception ''down'') else Inr (Some ()))
      (\<lambda>cn data q k kr r. Inr \<lparr>distances = [if cn = ''a'' then 7/10 else 9/10::real],
                                documents = [PStr cn], metadatas = [q]\<rparr>)
      [''a'', ''c''] [''q''] 5 3 0 =
     Inr \<lparr>distances = [9/10, 7/10], documents = [PStr ''c'', PStr ''a''], metadatas = [''q'', ''q'']\<rparr>"
proof -
  let ?get = "\<lambda>cn. if cn = ''b'' then Inl (Exception ''down'') else Inr (Some ())"
  let ?hybrid = "\<lambda>cn (data :: unit) (q :: string) (k :: int) (kr :: int) (r :: real).
      Inr \<lparr>distances = [if cn = ''a'' then 7/10 else 9/10::real],
           documents = [PStr cn], metadatas = [q]\<rparr> :: exn + (real, string) query_result"
  have t: "hybrid_task_results ?get ?hybrid [''a'', ''b'', ''c''] [''q''] 5 3 0 =
     [(Some \<lparr>distances = [7/10], documents = [PStr ''a''], metadatas = [''q'']\<rparr>, None),
      (None, Some (unavailable ''b'')),
      (Some \<lparr>distances = [9/10], documents = [PStr ''c''], metadatas = [''q'']\<rparr>, None)]"
    by (simp add: hybrid_task_results_def fetch_collection_data_def process_query_def)
  have m: "merge_and_sort_query_results (\<lambda>s. s)
      [\<lparr>distances = [7/10::real], documents = [PStr ''a''], metadatas = [''q'']\<rparr>,
       \<lparr>distances = [9/10], documents = [PStr ''c''], metadatas = [''q'']\<rparr>] 5 True =
      \<lparr>distances = [9/10, 7/10], documents = [PStr ''c'', PStr ''a''], metadatas = [''q'', ''q'']\<rparr>"
    by (simp add: eval_merge)
  note T = hybrid_partial_failure [where h = "\<lambda>s. s" and VECTOR_DB = "''pgvector''"
      and get = ?get and hybrid = ?hybrid
      and collection_names = "[''a'', ''b'', ''c'']" and queries = "[''q'']"
      and k = 5 and k_reranker = 3 and r = 0]
  have ex: "\<exists>tr \<in> set (hybrid_task_results ?get ?hybrid [''a'', ''b'', ''c''] [''q''] 5 3 0). snd tr = None"
    by (simp add: t)
  have b: "\<forall>data. ?get ''b'' \<noteq> Inr (Some data)" by simp
  from T [THEN conjunct1, rule_format, OF ex]
  have r1: "query_collection_with_hybrid_search (\<lambda>s. s) ''pgvector'' ?get ?hybrid
      [''a'', ''b'', ''c''] [''q''] 5 3 0 =
     Inr \<lparr>distances = [9/10, 7/10], documents = [PStr ''c'', PStr ''a''], metadatas = [''q'', ''q'']\<rparr>"
    by (simp add: t m)
  from T [THEN conjunct2, THEN conjunct2, THEN conjunct2, rule_format, of "''b''", OF conjI [OF b ex]]
  have r2: "query_collection_with_hybrid_search (\<lambda>s. s) ''pgvector'' ?get ?hybrid
      [''a'', ''c''] [''q''] 5 3 0 =
     Inr \<lparr>distances = [9/10, 7/10], documents = [PStr ''c'', PStr ''a''], metadatas = [''q'', ''q'']\<rparr>"
    by (simp add: r1)
  from t r1 r2 show ?thesis by simp
qed

text \<open>
  Claim C10. \<open>query_collection\<close> never propagates the failure of a dense search task: the
  only error it can raise is one raised by the embedding call of a query, which is
  outside the tasks. When the embedding calls return, it returns a result whatever the
  searches do; when moreover every search task fails, the result is the well-formed
  empty one, not an aggregate error. A failed task counts exactly as a task with no
  result.
\<close>

theorem query_collection_skips_failures:
  fixes h :: "string \<Rightarrow> 'h"
    and search :: "string \<Rightarrow> 'v \<Rightarrow> int \<Rightarrow> exn + ('d::linorder, 'm) query_result option"
    and embedding_function :: "string \<Rightarrow> exn + 'v"
    and collection_names queries :: "string list" and k :: int and VECTOR_DB :: string
  defines "res \<equiv> query_collection h VECTOR_DB search collection_names queries embedding_function k"
  shows "(\<forall>e. res = Inl e \<longrightarrow> (\<exists>q \<in> set queries. embedding_function q = Inl e)) \<and>
         ((\<forall>q \<in> set queries. \<exists>v. embedding_function q = Inr v) \<longrightarrow> (\<exists>out. res = Inr out)) \<and>
         ((\<forall>q \<in> set queries. \<exists>v. embedding_function q = Inr v) \<and>
          (\<forall>cn \<in> set collection_names. \<forall>v. \<exists>e. search cn v k = Inl e) \<longrightarrow>
            res = Inr \<lparr>distances = [], documents = [], metadatas = []\<rparr>) \<and>
         res = query_collection h VECTOR_DB (skip_failures search) collection_names queries
                 embedding_function k"
proof -
  have A: "\<exists>q \<in> set queries. embedding_function q = Inl e" if "res = Inl e" for e
  proof -
    from that have "query_collection_queries search embedding_function collection_names k [] queries = Inl e"
      by (auto simp: res_def query_collection_def split: sum.splits if_splits)
    then show ?thesis by (rule query_collection_queries_error)
  qed
  have B: "\<exists>out. res = Inr out" if "\<forall>q \<in> set queries. \<exists>v. embedding_function q = Inr v"
  proof -
    from query_collection_queries_returns [OF that]
    obtain rs where "query_collection_queries search embedding_function collection_names k [] queries = Inr rs"
      by blast
    then show ?thesis by (simp add: res_def query_collection_def)
  qed
  have C: "res = Inr \<lparr>distances = [], documents = [], metadatas = []\<rparr>"
    if "\<forall>q \<in> set queries. \<exists>v. embedding_function q = Inr v"
      and "\<forall>cn \<in> set collection_names. \<forall>v. \<exists>e. search cn v k = Inl e"
  proof -
    from query_collection_queries_all_fail [where search = search
        and embedding_function = embedding_function, OF that]
    have "query_collection_queries search embedding_function collection_names k [] queries = Inr []" .
    then show ?thesis
      by (simp add: res_def query_collection_def merge_and_sort_query_results_def)
  qed
  have D: "res = query_collection h VECTOR_DB (skip_failures search) collection_names queries
                 embedding_function k"
    by (simp add: res_def query_collection_def query_collection_queries_skip)
  from A B C D show ?thesis by blast
qed

theorem query_collection_skips_failures_witness:
  "query_collection (\<lambda>s. s) ''chroma''
     (\<lambda>cn v k. Inl (Exception ''unreachable'') :: exn + (real, string) query_result option)
     [''c1'', ''c2''] [''q1'', ''q2''] (\<lambda>q. Inr (length q)) 4 =
   Inr \<lparr>distances = [], documents = [], metadatas = []\<rparr> \<and>
   query_collection (\<lambda>s. s) ''chroma''
     (\<lambda>cn v k. if cn = ''c1'' then Inl (Exception ''unreachable'')
                else Inr (Some \<lparr>distances = [3/10::real], documents = [PStr cn], metadatas = [''m'']\<rparr>))
     [''c1'', ''c2''] [''q1''] (\<lambda>q. Inr (length q)) 4 =
   Inr \<lparr>distances = [3/10], documents = [PStr ''c2''], metadatas = [''m'']\<rparr>"
proof -
  have 1: "query_collection (\<lambda>s. s) ''chroma''
     (\<lambda>cn v k. Inl (Exception ''unreachable'') :: exn + (real, string) query_result option)
     [''c1'', ''c2''] [''q1'', ''q2''] (\<lambda>q. Inr (length q)) 4 =
   Inr \<lparr>distances = [], documents = [], metadatas = []\<rparr>"
    using query_collection_skips_failures [where h = "\<lambda>s. s" and VECTOR_DB = "''chroma''"
      and search = "\<lambda>cn v k. Inl (Exception ''unreachable'') :: exn + (real, string) query_result option"
      and collection_names = "[''c1'', ''c2'']" and queries = "[''q1'', ''q2'']"
      and embedding_function = "\<lambda>q. Inr (length q)" and k = 4]
    by simp
  have 2: "query_collection (\<lambda>s. s) ''chroma''
     (\<lambda>cn v k. if cn = ''c1'' then Inl (Exception ''unreachable'')
                else Inr (Some \<lparr>distances = [3/10::real], documents = [PStr cn], metadatas = [''m'']\<rparr>))
     [''c1'', ''c2''] [''q1''] (\<lambda>q. Inr (length q)) 4 =
   Inr \<lparr>distances = [3/10], documents = [PStr ''c2''], metadatas = [''m'']\<rparr>"
    by (simp add: eval_dense eval_merge)
  from 1 2 show ?thesis by simp
qed

section \<open>RerankCompressor.compress\_documents\<close>

lemma score_of_attach: "score_of (attach_score (d, s)) = Some s"
  by (simp add: score_of_def)

lemma score_of_attach': "score_of (attach_score c) = Some (snd c)"
  by (cases c) (simp add: score_of_def)

lemma compress_documents_eq:
  "compress_documents self docs query =
     map attach_score (py_slice_to (top_n self) (py_sort snd True
       (if r_score self \<noteq> 0 then filter (\<lambda>c. r_score self \<le> snd c) (candidates self docs query)
        else candidates self docs query)))"
  by (simp add: compress_documents_def candidates_def Let_def case_prod_unfold)

lemma compress_scores:
  "map score_of (compress_documents self docs query) =
     map Some (py_slice_to (top_n self) (py_sort (\<lambda>s. s) True
       (if r_score self \<noteq> 0 then filter (\<lambda>s. r_score self \<le> s) (map snd (candidates self docs query))
        else map snd (candidates self docs query))))"
proof -
  have "map score_of (map attach_score cs) = map Some (map snd cs)" for cs
    by (simp add: score_of_attach')
  then show ?thesis
    by (simp add: compress_documents_eq py_slice_to_map py_sort_map filter_map comp_def)
qed

lemma compress_sorted:
  "sorted_wrt (\<lambda>a b. snd b \<le> snd a) (py_slice_to (top_n self) (py_sort snd True cs))"
  using py_sort_sorted [of True snd cs] sorted_wrt_prefix [OF py_slice_to_prefix]
  by (metis (mono_tags, lifting) sorted_wrt_mono_rel)

lemma compress_members:
  assumes "doc \<in> set (compress_documents self docs query)"
  shows "\<exists>d s. (d, s) \<in> set (candidates self docs query) \<and> doc = attach_score (d, s) \<and>
          (r_score self \<noteq> 0 \<longrightarrow> r_score self \<le> s)"
proof -
  let ?cs = "if r_score self \<noteq> 0 then filter (\<lambda>c. r_score self \<le> snd c) (candidates self docs query)
        else candidates self docs query"
  from assms obtain c where c: "c \<in> set (py_slice_to (top_n self) (py_sort snd True ?cs))"
    and doc: "doc = attach_score c"
    by (auto simp: compress_documents_eq)
  from c have "c \<in> set ?cs" by (rule subsetD [OF slice_sort_subset])
  then have "c \<in> set (candidates self docs query) \<and> (r_score self \<noteq> 0 \<longrightarrow> r_score self \<le> snd c)"
    by (auto split: if_splits)
  with doc show ?thesis by (cases c) auto
qed

lemma compress_length:
  "length (compress_documents self docs query) =
     (let n = length (if r_score self \<noteq> 0
                      then filter (\<lambda>c. r_score self \<le> snd c) (candidates self docs query)
                      else candidates self docs query)
      in if 0 \<le> top_n self then min (nat (top_n self)) n else nat (int n + top_n self))"
proof -
  have "length (py_sort snd True cs) = length cs" for cs :: "(document \<times> real) list"
    by (metis py_sort_mset size_mset)
  then show ?thesis
    by (simp add: compress_documents_eq py_slice_to_length Let_def)
qed

lemmas eval_compress = compress_documents_def rerank_scores_def Let_def py_sort_def py_slice_to_def
  score_of_def

text \<open>
  Claim C6. When \<open>r_score\<close> is nonzero, every returned document has a score of at least
  \<open>r_score\<close>: the candidates below it are removed before the sort and the truncation,
  so that the returned scores are the first \<open>top_n\<close> of the sorted scores that pass the
  threshold. With threshold 0.5 and scores 0.9, 0.4, 0.6 the output is, up to
  truncation to \<open>top_n\<close>, the first document with 0.9 and the third with 0.6, in that
  order; it is exactly these two when \<open>top_n\<close> is at least 2.
\<close>

theorem compress_threshold:
  fixes self :: rerank_compressor and docs :: "document list" and query :: string
    and d1 d2 d3 :: document
  defines "out \<equiv> compress_documents self docs query"
  shows "(r_score self \<noteq> 0 \<longrightarrow>
            (\<forall>doc \<in> set out. \<exists>s. score_of doc = Some s \<and> r_score self \<le> s)) \<and>
         (r_score self \<noteq> 0 \<longrightarrow>
            map score_of out =
              map Some (py_slice_to (top_n self) (py_sort (\<lambda>s. s) True
                (filter (\<lambda>s. r_score self \<le> s) (map snd (candidates self docs query)))))) \<and>
         (r_score self = 1/2 \<and> rerank_scores self [d1, d2, d3] query = [9/10, 4/10, 6/10] \<longrightarrow>
            compress_documents self [d1, d2, d3] query =
              py_slice_to (top_n self) [attach_score (d1, 9/10), attach_score (d3, 6/10)]) \<and>
         (r_score self = 1/2 \<and> rerank_scores self [d1, d2, d3] query = [9/10, 4/10, 6/10] \<and>
          2 \<le> top_n self \<longrightarrow>
            compress_documents self [d1, d2, d3] query =
              [attach_score (d1, 9/10), attach_score (d3, 6/10)])"
proof -
  have A: "\<exists>s. score_of doc = Some s \<and> r_score self \<le> s"
    if "r_score self \<noteq> 0" "doc \<in> set out" for doc
    using compress_members [OF that(2) [unfolded out_def]] that(1)
    by (auto simp: score_of_def)
  have B: "map score_of out =
              map Some (py_slice_to (top_n self) (py_sort (\<lambda>s. s) True
                (filter (\<lambda>s. r_score self \<le> s) (map snd (candidates self docs query)))))"
    if "r_score self \<noteq> 0"
    using that by (simp add: out_def compress_scores)
  have C: "compress_documents self [d1, d2, d3] query =
              py_slice_to (top_n self) [attach_score (d1, 9/10), attach_score (d3, 6/10)]"
    if "r_score self = 1/2" "rerank_scores self [d1, d2, d3] query = [9/10, 4/10, 6/10]"
    using that
    by (simp add: compress_documents_eq candidates_def py_sort_def py_slice_to_map [symmetric]
        del: attach_score.simps)
  have D: "compress_documents self [d1, d2, d3] query =
              [attach_score (d1, 9/10), attach_score (d3, 6/10)]"
    if "r_score self = 1/2" "rerank_scores self [d1, d2, d3] query = [9/10, 4/10, 6/10]"
      "2 \<le> top_n self"
    using C [OF that(1,2)] that(3) by (simp add: py_slice_to_def del: attach_score.simps)
  from A B C D show ?thesis by blast
qed

theorem compress_threshold_witness:
  "r_score \<lparr>top_n = 3, r_score = 1/2, reranking_function = Some (\<lambda>pairs. [9/10, 4/10, 6/10]),
             cos_sim_scores = (\<lambda>q texts. [])\<rparr> \<noteq> 0 \<and>
   map score_of (compress_documents
     \<lparr>top_n = 3, r_score = 1/2, reranking_function = Some (\<lambda>pairs. [9/10, 4/10, 6/10]),
      cos_sim_scores = (\<lambda>q texts. [])\<rparr>
     [\<lparr>page_content = ''a'', metadata = Map.empty\<rparr>, \<lparr>page_content = ''b'', metadata = Map.empty\<rparr>,
      \<lparr>page_content = ''c'', metadata = Map.empty\<rparr>] ''q'') = [Some (9/10), Some (6/10)] \<and>
   map page_content (compress_documents
     \<lparr>top_n = 3, r_score = 1/2, reranking_function = Some (\<lambda>pairs. [9/10, 4/10, 6/10]),
      cos_sim_scores = (\<lambda>q texts. [])\<rparr>
     [\<lparr>page_content = ''a'', metadata = Map.empty\<rparr>, \<lparr>page_content = ''b'', metadata = Map.empty\<rparr>,
      \<lparr>page_content = ''c'', metadata = Map.empty\<rparr>] ''q'') = [''a'', ''c'']"
  using compress_threshold [where self = "\<lparr>top_n = 3, r_score = 1/2,
      reranking_function = Some (\<lambda>pairs. [9/10, 4/10, 6/10]), cos_sim_scores = (\<lambda>q texts. [])\<rparr>"
    and docs = "[\<lparr>page_content = ''a'', metadata = Map.empty\<rparr>, \<lparr>page_content = ''b'', metadata = Map.empty\<rparr>,
      \<lparr>page_content = ''c'', metadata = Map.empty\<rparr>]" and query = "''q''"
    and ?d1.0 = "\<lparr>page_content = ''a'', metadata = Map.empty\<rparr>"
    and ?d2.0 = "\<lparr>page_content = ''b'', metadata = Map.empty\<rparr>"
    and ?d3.0 = "\<lparr>page_content = ''c'', metadata = Map.empty\<rparr>"]
  by (simp add: eval_compress)

lemma compress_kept:
  "compress_documents self docs query =
     map attach_score (py_slice_to (top_n self) (py_sort snd True (kept self docs query)))"
  by (simp add: compress_documents_eq kept_def)

lemma candidates_nth:
  assumes "(d, s) \<in> set (candidates self docs query)"
  shows "\<exists>i. i < length docs \<and> i < length (rerank_scores self docs query) \<and>
           d = docs ! i \<and> s = rerank_scores self docs query ! i"
  using assms unfolding candidates_def by (auto simp: set_zip)

text \<open>
  Claim C7 (as amended). The returned list is the candidates that pass the threshold,
  in the order of their stable sort by score, descending, cut by \<open>result[:top_n]\<close>, each
  with its score attached. So the list is sorted by score in descending order; every
  returned entry is a document of the input, at some position \<open>i\<close>, with its text
  unchanged and with the score the scoring function gave to position \<open>i\<close> stored in
  its metadata under the key \<open>"score"\<close>; and for \<open>top_n \<ge> 0\<close> the length is at most
  \<open>top_n\<close>: it is the smaller of \<open>top_n\<close> and the number of candidates that pass the
  threshold. For negative \<open>top_n\<close> the last \<open>-top_n\<close> of these candidates are dropped.
\<close>

theorem compress_sorted_bounded:
  fixes self :: rerank_compressor and docs :: "document list" and query :: string
  defines "out \<equiv> compress_documents self docs query"
    and "scores \<equiv> rerank_scores self docs query"
  shows "(\<exists>ss. map score_of out = map Some ss \<and> sorted_wrt (\<lambda>a b. b \<le> a) ss) \<and>
         (\<forall>i. Suc i < length out \<longrightarrow>
            (\<exists>a b. score_of (out ! i) = Some a \<and> score_of (out ! Suc i) = Some b \<and> b \<le> a)) \<and>
         (0 \<le> top_n self \<longrightarrow> int (length out) \<le> top_n self) \<and>
         length out =
           (if 0 \<le> top_n self then min (nat (top_n self)) (length (kept self docs query))
            else nat (int (length (kept self docs query)) + top_n self)) \<and>
         (\<forall>doc \<in> set out. \<exists>d \<in> set docs. \<exists>s.
            doc = \<lparr>page_content = page_content d, metadata = (metadata d)(''score'' \<mapsto> PFloat s)\<rparr> \<and>
            metadata doc ''score'' = Some (PFloat s)) \<and>
         (\<exists>L. stable_sort_of snd True (kept self docs query) L) \<and>
         (\<forall>L. stable_sort_of snd True (kept self docs query) L \<longrightarrow>
            out = map attach_score (py_slice_to (top_n self) L)) \<and>
         (\<forall>doc \<in> set out. \<exists>i. i < length docs \<and> i < length scores \<and>
            doc = \<lparr>page_content = page_content (docs ! i),
                   metadata = (metadata (docs ! i))(''score'' \<mapsto> PFloat (scores ! i))\<rparr> \<and>
            metadata doc ''score'' = Some (PFloat (scores ! i)) \<and>
            score_of doc = Some (scores ! i) \<and>
            (r_score self \<noteq> 0 \<longrightarrow> r_score self \<le> scores ! i))"
proof -
  let ?cs = "if r_score self \<noteq> 0 then filter (\<lambda>c. r_score self \<le> snd c) (candidates self docs query)
        else candidates self docs query"
  let ?P = "py_slice_to (top_n self) (py_sort snd True ?cs)"
  have out: "out = map attach_score ?P" by (simp add: out_def compress_documents_eq)
  have sc: "map score_of out = map Some (map snd ?P)"
    by (simp add: out score_of_attach')
  have "sorted_wrt (\<lambda>a b. snd b \<le> snd a) ?P" by (rule compress_sorted)
  then have srt: "sorted_wrt (\<lambda>a b. b \<le> a) (map snd ?P)" by (simp add: sorted_wrt_map)
  have A: "\<exists>ss. map score_of out = map Some ss \<and> sorted_wrt (\<lambda>a b. b \<le> a) ss"
    using sc srt by blast
  have B: "\<exists>a b. score_of (out ! i) = Some a \<and> score_of (out ! Suc i) = Some b \<and> b \<le> a"
    if "Suc i < length out" for i
  proof -
    from that have l: "Suc i < length (map snd ?P)" by (simp add: out)
    from sorted_wrt_nth_less [OF srt _ l, of i] have "map snd ?P ! Suc i \<le> map snd ?P ! i" by simp
    moreover from that have "score_of (out ! i) = Some (map snd ?P ! i)"
      by (simp add: out score_of_attach')
    moreover from that have "score_of (out ! Suc i) = Some (map snd ?P ! Suc i)"
      by (simp add: out score_of_attach')
    ultimately show ?thesis by blast
  qed
  have D: "length out =
           (if 0 \<le> top_n self then min (nat (top_n self)) (length (kept self docs query))
            else nat (int (length (kept self docs query)) + top_n self))"
    using compress_length [of self docs query] by (simp add: out_def Let_def kept_def)
  have C: "int (length out) \<le> top_n self" if "0 \<le> top_n self"
    using that D by simp
  have H: "\<exists>i. i < length docs \<and> i < length scores \<and>
            doc = \<lparr>page_content = page_content (docs ! i),
                   metadata = (metadata (docs ! i))(''score'' \<mapsto> PFloat (scores ! i))\<rparr> \<and>
            metadata doc ''score'' = Some (PFloat (scores ! i)) \<and>
            score_of doc = Some (scores ! i) \<and>
            (r_score self \<noteq> 0 \<longrightarrow> r_score self \<le> scores ! i)" if "doc \<in> set out" for doc
  proof -
    from compress_members [OF that [unfolded out_def]]
    obtain d s where ds: "(d, s) \<in> set (candidates self docs query)" and doc: "doc = attach_score (d, s)"
      and r: "r_score self \<noteq> 0 \<longrightarrow> r_score self \<le> s"
      by blast
    from candidates_nth [OF ds] obtain i where i: "i < length docs" "i < length scores"
      and d: "d = docs ! i" and s: "s = scores ! i"
      unfolding scores_def by blast
    from doc have "doc = \<lparr>page_content = page_content (docs ! i),
                   metadata = (metadata (docs ! i))(''score'' \<mapsto> PFloat (scores ! i))\<rparr>"
      by (simp add: d s)
    moreover from doc have "metadata doc ''score'' = Some (PFloat (scores ! i))" by (simp add: s)
    moreover from doc have "score_of doc = Some (scores ! i)" by (simp add: s score_of_def)
    ultimately show ?thesis using i r s by blast
  qed
  have E: "\<exists>d \<in> set docs. \<exists>s.
            doc = \<lparr>page_content = page_content d, metadata = (metadata d)(''score'' \<mapsto> PFloat s)\<rparr> \<and>
            metadata doc ''score'' = Some (PFloat s)" if "doc \<in> set out" for doc
  proof -
    from H [OF that] obtain i where "i < length docs"
      and "doc = \<lparr>page_content = page_content (docs ! i),
                   metadata = (metadata (docs ! i))(''score'' \<mapsto> PFloat (scores ! i))\<rparr>"
      and "metadata doc ''score'' = Some (PFloat (scores ! i))" by blast
    moreover from this(1) have "docs ! i \<in> set docs" by simp
    ultimately show ?thesis by blast
  qed
  have L: "stable_sort_of snd True (kept self docs query) (py_sort snd True (kept self docs query))"
    by (rule py_sort_stable_sort)
  then have F: "\<exists>L. stable_sort_of snd True (kept self docs query) L" by blast
  have G: "out = map attach_score (py_slice_to (top_n self) L')"
    if "stable_sort_of snd True (kept self docs query) L'" for L'
    using stable_sort_unique [OF that L] by (simp add: out_def compress_kept)
  from A B C D E F G H show ?thesis by blast
qed

theorem compress_sorted_bounded_witness:
  "(0::int) \<le> top_n \<lparr>top_n = 2, r_score = 0, reranking_function = None,
             cos_sim_scores = (\<lambda>q texts. [3/10, 9/10, 6/10])\<rparr> \<and>
   map page_content (compress_documents
     \<lparr>top_n = 2, r_score = 0, reranking_function = None,
      cos_sim_scores = (\<lambda>q texts. [3/10, 9/10, 6/10])\<rparr>
     [\<lparr>page_content = ''a'', metadata = Map.empty\<rparr>, \<lparr>page_content = ''b'', metadata = Map.empty\<rparr>,
      \<lparr>page_content = ''c'', metadata = Map.empty\<rparr>] ''q'') = [''b'', ''c''] \<and>
   map score_of (compress_documents
     \<lparr>top_n = 2, r_score = 0, reranking_function = None,
      cos_sim_scores = (\<lambda>q texts. [3/10, 9/10, 6/10])\<rparr>
     [\<lparr>page_content = ''a'', metadata = Map.empty\<rparr>, \<lparr>page_content = ''b'', metadata = Map.empty\<rparr>,
      \<lparr>page_content = ''c'', metadata = Map.empty\<rparr>] ''q'') = [Some (9/10), Some (6/10)] \<and>
   map (\<lambda>doc. metadata doc ''score'') (compress_documents
     \<lparr>top_n = 2, r_score = 0, reranking_function = None,
      cos_sim_scores = (\<lambda>q texts. [3/10, 9/10, 6/10])\<rparr>
     [\<lparr>page_content = ''a'', metadata = Map.empty\<rparr>, \<lparr>page_content = ''b'', metadata = Map.empty\<rparr>,
      \<lparr>page_content = ''c'', metadata = Map.empty\<rparr>] ''q'') =
     [Some (PFloat (9/10)), Some (PFloat (6/10))] \<and>
   int (length (compress_documents
     \<lparr>top_n = 2, r_score = 0, reranking_function = None,
      cos_sim_scores = (\<lambda>q texts. [3/10, 9/10, 6/10])\<rparr>
     [\<lparr>page_content = ''a'', metadata = Map.empty\<rparr>, \<lparr>page_content = ''b'', metadata = Map.empty\<rparr>,
      \<lparr>page_content = ''c'', metadata = Map.empty\<rparr>] ''q'')) \<le> 2"
proof -
  let ?self = "\<lparr>top_n = 2, r_score = 0, reranking_function = None,
      cos_sim_scores = (\<lambda>q texts. [3/10, 9/10, 6/10])\<rparr>"
  let ?a = "\<lparr>page_content = ''a'', metadata = Map.empty\<rparr>"
  let ?b = "\<lparr>page_content = ''b'', metadata = Map.empty\<rparr>"
  let ?c = "\<lparr>page_content = ''c'', metadata = Map.empty\<rparr>"
  note T = compress_sorted_bounded [where self = ?self and docs = "[?a, ?b, ?c]" and query = "''q''"]
  have k: "kept ?self [?a, ?b, ?c] ''q'' = [(?a, 3/10), (?b, 9/10), (?c, 6/10)]"
    by (simp add: kept_def candidates_def rerank_scores_def)
  have "py_sort snd True [(?a, 3/10::real), (?b, 9/10), (?c, 6/10)] = [(?b, 9/10), (?c, 6/10), (?a, 3/10)]"
    by (simp add: py_sort_def)
  with py_sort_stable_sort [of snd True "[(?a, 3/10::real), (?b, 9/10), (?c, 6/10)]"]
  have S: "stable_sort_of snd True (kept ?self [?a, ?b, ?c] ''q'') [(?b, 9/10), (?c, 6/10), (?a, 3/10)]"
    by (simp only: k)
  from T [THEN conjunct2, THEN conjunct2, THEN conjunct2, THEN conjunct2, THEN conjunct2,
      THEN conjunct2, THEN conjunct1, rule_format, OF S]
  have out: "compress_documents ?self [?a, ?b, ?c] ''q'' =
      [attach_score (?b, 9/10), attach_score (?c, 6/10)]"
    by (simp add: py_slice_to_def del: attach_score.simps)
  show ?thesis unfolding out by (simp add: score_of_def)
qed

text \<open>
  The claim as stated, for every \<open>top_n\<close>, fails at \<open>top_n = -1\<close>: \<open>result[:-1]\<close> keeps one
  of two candidates, and the length 1 is not at most \<open>-1\<close>.
\<close>

theorem compress_negative_top_n:
  "length (compress_documents
     \<lparr>top_n = - 1, r_score = 0, reranking_function = Some (\<lambda>pairs. [9/10, 8/10]),
      cos_sim_scores = (\<lambda>q texts. [])\<rparr>
     [\<lparr>page_content = ''a'', metadata = Map.empty\<rparr>, \<lparr>page_content = ''b'', metadata = Map.empty\<rparr>]
     ''q'') = 1 \<and>
   \<not> int (length (compress_documents
     \<lparr>top_n = - 1, r_score = 0, reranking_function = Some (\<lambda>pairs. [9/10, 8/10]),
      cos_sim_scores = (\<lambda>q texts. [])\<rparr>
     [\<lparr>page_content = ''a'', metadata = Map.empty\<rparr>, \<lparr>page_content = ''b'', metadata = Map.empty\<rparr>]
     ''q'')) \<le> top_n \<lparr>top_n = - 1, r_score = 0, reranking_function = Some (\<lambda>pairs. [9/10, 8/10]),
      cos_sim_scores = (\<lambda>q texts. [])\<rparr>"
  by (simp add: eval_compress)

end
